theory Spec2Isabelle
  imports Main "HOL-Library.Word"
begin

unbundle bit_operations_syntax

section \<open>Input records\<close>

text \<open>
  The Windows \<^verbatim>\<open>INPUT_RECORD\<close>: an event type tag and a union of event bodies.
  The tag is the constructor. \<^verbatim>\<open>WORD\<close> fields are 16-bit words, \<^verbatim>\<open>DWORD\<close>
  fields 32-bit words, \<^verbatim>\<open>BOOL\<close> fields booleans.
\<close>

record KEY_EVENT_RECORD =
  bKeyDown :: bool
  wRepeatCount :: "16 word"
  wVirtualKeyCode :: "16 word"
  wVirtualScanCode :: "16 word"
  UnicodeChar :: "16 word"
  dwControlKeyState :: "32 word"

record MOUSE_EVENT_RECORD =
  dwMousePositionX :: "16 word"
  dwMousePositionY :: "16 word"
  dwButtonState :: "32 word"
  dwMouseControlKeyState :: "32 word"
  dwEventFlags :: "32 word"

datatype INPUT_RECORD =
    KEY_EVENT KEY_EVENT_RECORD
  | MOUSE_EVENT MOUSE_EVENT_RECORD
  | OTHER_EVENT "16 word"

fun is_KEY_EVENT :: "INPUT_RECORD \<Rightarrow> bool" where
  "is_KEY_EVENT (KEY_EVENT k) = True"
| "is_KEY_EVENT r = False"

definition MOUSE_MOVED :: "32 word" where
  "MOUSE_MOVED = 1"

definition NLS_IME_CONVERSION :: "32 word" where
  "NLS_IME_CONVERSION = 0x00800000"

definition ENABLE_LINE_INPUT :: "32 word" where
  "ENABLE_LINE_INPUT = 2"

definition VK_PAUSE :: "16 word" where
  "VK_PAUSE = 0x13"

definition sizeof_INPUT_RECORD :: nat where
  "sizeof_INPUT_RECORD = 20"

datatype NTSTATUS =
    STATUS_SUCCESS
  | STATUS_INTEGER_OVERFLOW
  | STATUS_NO_MEMORY
  | CONSOLE_STATUS_WAIT
  | STATUS_UNSUCCESSFUL

definition NT_SUCCESS :: "NTSTATUS \<Rightarrow> bool" where
  "NT_SUCCESS st = (st = STATUS_SUCCESS)"

section \<open>What the input buffer takes from its surroundings\<close>

text \<open>
  The helpers and constants the source uses but does not define are parameters:
  the full-width test of dbcs.h, the key classifiers and the output-suspension flags
  of the console, the heap (whether an allocation of a given byte size succeeds, and
  what an uninitialised record of a new allocation holds), the width of
  \<^verbatim>\<open>size_t\<close>, and the growth increment and default size of the buffer.
\<close>

record platform =
  IsCharFullWidth :: "16 word \<Rightarrow> bool"
  IsSystemKey :: "16 word \<Rightarrow> bool"
  IsPauseKey :: "KEY_EVENT_RECORD \<Rightarrow> bool"
  UnblockWriteConsole :: "32 word \<Rightarrow> 32 word"
  CONSOLE_SUSPENDED :: "32 word"
  CONSOLE_OUTPUT_SUSPENDED :: "32 word"
  alloc_ok :: "nat \<Rightarrow> bool"
  fresh :: "nat \<Rightarrow> INPUT_RECORD"
  size_t_bits :: nat
  INPUT_BUFFER_SIZE_INCREMENT :: nat
  DEFAULT_NUMBER_OF_EVENTS :: nat

definition ULONG :: "nat \<Rightarrow> nat" where
  "ULONG n = n mod 2 ^ 32"

definition DWordMult :: "nat \<Rightarrow> nat \<Rightarrow> nat option" where
  "DWordMult a b = (if a * b < 2 ^ 32 then Some (a * b) else None)"

definition DWordAdd :: "nat \<Rightarrow> nat \<Rightarrow> nat option" where
  "DWordAdd a b = (if a + b < 2 ^ 32 then Some (a + b) else None)"

definition SizeTMult :: "platform \<Rightarrow> nat \<Rightarrow> nat \<Rightarrow> nat option" where
  "SizeTMult env a b = (if a * b < 2 ^ size_t_bits env then Some (a * b) else None)"

section \<open>The circular buffer\<close>

text \<open>
  The store is the list of its \<^verbatim>\<open>InputBufferSize + 1\<close> records. The cursors
  \<^verbatim>\<open>In\<close> and \<^verbatim>\<open>Out\<close> are kept as record indices relative to \<^verbatim>\<open>First\<close>: every
  pointer of the source is \<^verbatim>\<open>First\<close> plus a multiple of
  \<^verbatim>\<open>sizeof(INPUT_RECORD)\<close>, and the byte lengths of the source are record counts
  here. \<^verbatim>\<open>First\<close> is index 0 and \<^verbatim>\<open>Last\<close> the index one past the store.
  \<^verbatim>\<open>InputWaitEvent\<close> is the state of the event object, \<^verbatim>\<open>Flags\<close> the console's
  global flags word.
\<close>

record INPUT_INFORMATION =
  InputBuffer :: "INPUT_RECORD list"
  InputBufferSize :: nat
  In :: nat
  Out :: nat
  InputMode :: "32 word"
  InputWaitEvent :: bool
  Flags :: "32 word"

definition First :: "INPUT_INFORMATION \<Rightarrow> nat" where
  "First s = 0"

definition Last :: "INPUT_INFORMATION \<Rightarrow> nat" where
  "Last s = InputBufferSize s + 1"

definition GetNumberOfReadyEvents :: "INPUT_INFORMATION \<Rightarrow> nat" where
  "GetNumberOfReadyEvents s =
     (if In s < Out s then (Last s - Out s) + (In s - First s) else In s - Out s)"

subsection \<open>ReadBuffer\<close>

text \<open>
  The record-by-record copy of the non-Unicode mode: the loop
  \<^verbatim>\<open>while (BufferLengthInBytes < Length && OldTransferLength)\<close>. It returns the
  character budget used and the records of the segment left uncopied; a key event
  with a full-width character takes two characters, any other record one.
\<close>

fun char_cells :: "platform \<Rightarrow> INPUT_RECORD \<Rightarrow> nat" where
  "char_cells env (KEY_EVENT k) = (if IsCharFullWidth env (UnicodeChar k) then 2 else 1)"
| "char_cells env r = 1"

fun ansi_scan :: "platform \<Rightarrow> nat \<Rightarrow> INPUT_RECORD list \<Rightarrow> nat \<Rightarrow> nat \<Rightarrow> nat \<times> nat" where
  "ansi_scan env Length (r # q) B (Suc n) =
     (if B < Length then ansi_scan env Length q (B + char_cells env r) n else (B, Suc n))"
| "ansi_scan env Length q B n = (B, n)"

text \<open>
  \<^verbatim>\<open>ReadBuffer\<close> returns the status, the records copied to the caller's buffer,
  \<^verbatim>\<open>*EventsRead\<close>, \<^verbatim>\<open>*ResetWaitEvent\<close> and the buffer after the call. The source
  keeps the byte length \<^verbatim>\<open>Length * sizeof(INPUT_RECORD)\<close> in a \<^verbatim>\<open>ULONG\<close>; lengths are
  record counts here, which is that computation as long as the byte length is below
  2^32, and the statements about reads of a given length assume as much.
\<close>

definition ReadBuffer ::
  "platform \<Rightarrow> INPUT_INFORMATION \<Rightarrow> nat \<Rightarrow> bool \<Rightarrow> bool \<Rightarrow> bool \<Rightarrow>
   NTSTATUS \<times> INPUT_RECORD list \<times> nat \<times> bool \<times> INPUT_INFORMATION" where
  "ReadBuffer env s Length Peek StreamRead Unicode =
    (if StreamRead \<and> is_KEY_EVENT (InputBuffer s ! Out s) then
       (let Out1 = Out s + 1;
            Out2 = (if Last s = Out1 then First s else Out1)
        in (STATUS_SUCCESS, [InputBuffer s ! Out s], 1, Out2 = In s, s\<lparr>Out := Out2\<rparr>))
     else if In s > Out s then
       (let TL0 = (if In s - Out s > Length then Length else In s - Out s);
            TL = (if Unicode then TL0
                  else TL0 - snd (ansi_scan env Length (drop (Out s) (InputBuffer s)) 0 TL0));
            Out1 = (if Peek then Out s else Out s + TL)
        in (STATUS_SUCCESS, take TL (drop (Out s) (InputBuffer s)), TL, Out1 = In s,
            s\<lparr>Out := Out1\<rparr>))
     else
       (let TL0 = (if Last s - Out s > Length then Length else Last s - Out s);
            sc1 = ansi_scan env Length (drop (Out s) (InputBuffer s)) 0 TL0;
            B1 = (if Unicode then Length else fst sc1);
            TL1 = (if Unicode then TL0 else TL0 - snd sc1);
            dest1 = take TL1 (drop (Out s) (InputBuffer s));
            Out1 = (if Peek then Out s
                    else if Out s + TL1 = Last s then First s else Out s + TL1)
        in if (if Unicode then TL1 = Length else B1 \<ge> Length) then
             (STATUS_SUCCESS, dest1, TL1, Out1 = In s, s\<lparr>Out := Out1\<rparr>)
           else
             (let Length' = (if Unicode then Length else Length - B1)
              in if \<not> Unicode \<and> Length' = 0 then
                   (STATUS_SUCCESS, dest1, TL1, Out1 = In s, s\<lparr>Out := Out1\<rparr>)
                 else
                   (let avail = (if Unicode then Length' - TL1 else Length');
                        TL2a = (if In s - First s > avail then avail else In s - First s);
                        sc2 = ansi_scan env Length' (drop (First s) (InputBuffer s)) 0 TL2a;
                        TL2 = (if Unicode then TL2a else TL2a - snd sc2);
                        Out2 = (if Peek then Out1 else First s + TL2)
                    in (STATUS_SUCCESS,
                        dest1 @ take TL2 (drop (First s) (InputBuffer s)),
                        TL1 + TL2, Out2 = In s, s\<lparr>Out := Out2\<rparr>)))))"

subsection \<open>SetInputBufferSize\<close>

text \<open>
  The new store holds the records \<^verbatim>\<open>ReadBuffer\<close> copied (a peek in Unicode mode,
  asking for \<^verbatim>\<open>Size\<close> records), followed by uninitialised records.
\<close>

definition SetInputBufferSize ::
  "platform \<Rightarrow> INPUT_INFORMATION \<Rightarrow> nat \<Rightarrow> NTSTATUS \<times> INPUT_INFORMATION" where
  "SetInputBufferSize env s Size =
    (case SizeTMult env sizeof_INPUT_RECORD (ULONG (Size + 1)) of
       None \<Rightarrow> (STATUS_INTEGER_OVERFLOW, s)
     | Some BufferSize \<Rightarrow>
         if \<not> alloc_ok env BufferSize then (STATUS_NO_MEMORY, s)
         else
           (case ReadBuffer env s Size True False True of
              (Status, recs, NumberOfEventsRead, Dummy, s1) \<Rightarrow>
                if \<not> NT_SUCCESS Status then (Status, s)
                else
                  (Status,
                   s\<lparr>Out := 0, In := NumberOfEventsRead, InputBufferSize := Size,
                     InputBuffer :=
                       recs @ map (fresh env)
                         [NumberOfEventsRead ..< BufferSize div sizeof_INPUT_RECORD]\<rparr>)))"

subsection \<open>WriteBuffer\<close>

text \<open>
  The record written last: one record before \<^verbatim>\<open>In\<close>, or the last record of the
  store when \<^verbatim>\<open>In\<close> is at \<^verbatim>\<open>First\<close>.
\<close>

definition LastInputEvent :: "INPUT_INFORMATION \<Rightarrow> nat" where
  "LastInputEvent s = (if In s = First s then Last s - 1 else In s - 1)"

text \<open>
  The coalescing of a single record: \<^verbatim>\<open>Some\<close> of the buffer with the last record
  updated when the source returns from inside the coalescing block, \<^verbatim>\<open>None\<close> when it
  falls through to the copy loop.
\<close>

definition coalesce :: "platform \<Rightarrow> INPUT_INFORMATION \<Rightarrow> INPUT_RECORD \<Rightarrow> INPUT_INFORMATION option" where
  "coalesce env s InputEvent =
    (case InputEvent of
       MOUSE_EVENT m \<Rightarrow>
         if dwEventFlags m = MOUSE_MOVED then
           (case InputBuffer s ! LastInputEvent s of
              MOUSE_EVENT lm \<Rightarrow>
                if dwEventFlags lm = MOUSE_MOVED then
                  Some (s\<lparr>InputBuffer := (InputBuffer s)[LastInputEvent s :=
                          MOUSE_EVENT (lm\<lparr>dwMousePositionX := dwMousePositionX m,
                                          dwMousePositionY := dwMousePositionY m\<rparr>)]\<rparr>)
                else None
            | _ \<Rightarrow> None)
         else None
     | KEY_EVENT k \<Rightarrow>
         if bKeyDown k then
           (if IsCharFullWidth env (UnicodeChar k) then None
            else if dwControlKeyState k AND NLS_IME_CONVERSION \<noteq> 0 then
              (case InputBuffer s ! LastInputEvent s of
                 KEY_EVENT lk \<Rightarrow>
                   if bKeyDown lk \<and> UnicodeChar lk = UnicodeChar k
                      \<and> dwControlKeyState lk = dwControlKeyState k then
                     Some (s\<lparr>InputBuffer := (InputBuffer s)[LastInputEvent s :=
                             KEY_EVENT (lk\<lparr>wRepeatCount := wRepeatCount lk + wRepeatCount k\<rparr>)]\<rparr>)
                   else None
               | _ \<Rightarrow> None)
            else
              (case InputBuffer s ! LastInputEvent s of
                 KEY_EVENT lk \<Rightarrow>
                   if bKeyDown lk \<and> wVirtualScanCode lk = wVirtualScanCode k
                      \<and> UnicodeChar lk = UnicodeChar k
                      \<and> dwControlKeyState lk = dwControlKeyState k then
                     Some (s\<lparr>InputBuffer := (InputBuffer s)[LastInputEvent s :=
                             KEY_EVENT (lk\<lparr>wRepeatCount := wRepeatCount lk + wRepeatCount k\<rparr>)]\<rparr>)
                   else None
               | _ \<Rightarrow> None))
         else None
     | OTHER_EVENT t \<Rightarrow> None)"

text \<open>
  \<^verbatim>\<open>memmove\<close> of \<^verbatim>\<open>TransferLength\<close> records from the caller's buffer to \<^verbatim>\<open>In\<close>,
  then \<^verbatim>\<open>In += TransferLength\<close>. A copy that would read past the caller's records
  or write past the store has no defined result.
\<close>

definition copy_in :: "INPUT_INFORMATION \<Rightarrow> INPUT_RECORD list \<Rightarrow> nat \<Rightarrow> INPUT_INFORMATION option" where
  "copy_in s Buffer TransferLength =
    (if TransferLength \<le> length Buffer \<and> In s + TransferLength \<le> length (InputBuffer s) then
       Some (s\<lparr>InputBuffer := take (In s) (InputBuffer s) @ take TransferLength Buffer
                                @ drop (In s + TransferLength) (InputBuffer s),
               In := In s + TransferLength\<rparr>)
     else None)"

text \<open>
  The code from the label \<^verbatim>\<open>OutPath\<close> to the choice of \<^verbatim>\<open>TransferLength\<close>:
  \<^verbatim>\<open>Inl\<close> is the early return with the status of the failed growth, \<^verbatim>\<open>Inr\<close> the
  transfer length and the buffer the copy then goes to.
\<close>

definition OutPath ::
  "platform \<Rightarrow> INPUT_INFORMATION \<Rightarrow> nat \<Rightarrow> nat \<Rightarrow> NTSTATUS + (nat \<times> INPUT_INFORMATION)" where
  "OutPath env s Length BufferLengthInBytes =
    (if Last s - In s > BufferLengthInBytes then Inr (BufferLengthInBytes, s)
     else if First s = Out s \<and> In s = Last s - 1 then
       (case SetInputBufferSize env s
               (ULONG (InputBufferSize s + Length + INPUT_BUFFER_SIZE_INCREMENT env)) of
          (Status, s1) \<Rightarrow>
            if \<not> NT_SUCCESS Status then Inl Status else Inr (BufferLengthInBytes, s1))
     else Inr (if First s = Out s then Last s - In s - 1 else Last s - In s, s))"

text \<open>
  The \<^verbatim>\<open>while (*EventsWritten < Length)\<close> loop. \<^verbatim>\<open>Buffer\<close> holds the records not yet
  written. The result is the status, \<^verbatim>\<open>*EventsWritten\<close>, \<^verbatim>\<open>*SetWaitEvent\<close> and the
  buffer; \<^verbatim>\<open>None\<close> stands for a loop that does not return.
\<close>

partial_function (option) WriteLoop ::
  "platform \<Rightarrow> INPUT_INFORMATION \<Rightarrow> INPUT_RECORD list \<Rightarrow> nat \<Rightarrow> nat \<Rightarrow> nat \<Rightarrow> bool \<Rightarrow>
   (NTSTATUS \<times> nat \<times> bool \<times> INPUT_INFORMATION) option" where
  "WriteLoop env s Buffer Length EventsWritten BufferLengthInBytes SetWaitEvent =
    (if \<not> EventsWritten < Length then Some (STATUS_SUCCESS, EventsWritten, SetWaitEvent, s)
     else if Out s > In s then
       (if Out s - In s - 1 < BufferLengthInBytes then
          (case SetInputBufferSize env s
                  (ULONG (InputBufferSize s + Length + INPUT_BUFFER_SIZE_INCREMENT env)) of
             (Status, s1) \<Rightarrow>
               if \<not> NT_SUCCESS Status then
                 (let TransferLength = Out s - In s - 1
                  in if TransferLength = 0 then Some (Status, EventsWritten, SetWaitEvent, s)
                     else
                       (case copy_in s Buffer TransferLength of
                          None \<Rightarrow> None
                        | Some s2 \<Rightarrow>
                            WriteLoop env s2 (drop TransferLength Buffer) Length
                              (EventsWritten + TransferLength)
                              (BufferLengthInBytes - TransferLength) SetWaitEvent))
               else
                 (case OutPath env s1 Length BufferLengthInBytes of
                    Inl Status2 \<Rightarrow> Some (Status2, EventsWritten, SetWaitEvent, s1)
                  | Inr (TransferLength, s2) \<Rightarrow>
                      (case copy_in s2 Buffer TransferLength of
                         None \<Rightarrow> None
                       | Some s3 \<Rightarrow>
                           WriteLoop env (if In s3 = Last s3 then s3\<lparr>In := First s3\<rparr> else s3)
                             (drop TransferLength Buffer) Length
                             (EventsWritten + TransferLength)
                             (BufferLengthInBytes - TransferLength) SetWaitEvent)))
        else
          (case copy_in s Buffer BufferLengthInBytes of
             None \<Rightarrow> None
           | Some s2 \<Rightarrow>
               WriteLoop env s2 (drop BufferLengthInBytes Buffer) Length
                 (EventsWritten + BufferLengthInBytes)
                 (BufferLengthInBytes - BufferLengthInBytes) SetWaitEvent))
     else
       (case OutPath env s Length BufferLengthInBytes of
          Inl Status \<Rightarrow> Some (Status, EventsWritten, SetWaitEvent \<or> Out s = In s, s)
        | Inr (TransferLength, s2) \<Rightarrow>
            (case copy_in s2 Buffer TransferLength of
               None \<Rightarrow> None
             | Some s3 \<Rightarrow>
                 WriteLoop env (if In s3 = Last s3 then s3\<lparr>In := First s3\<rparr> else s3)
                   (drop TransferLength Buffer) Length
                   (EventsWritten + TransferLength)
                   (BufferLengthInBytes - TransferLength) (SetWaitEvent \<or> Out s = In s))))"

text \<open>
  \<^verbatim>\<open>WriteBuffer\<close>: the caller's records are the list, \<^verbatim>\<open>Length\<close> its length.
\<close>

definition WriteBuffer ::
  "platform \<Rightarrow> INPUT_INFORMATION \<Rightarrow> INPUT_RECORD list \<Rightarrow>
   (NTSTATUS \<times> nat \<times> bool \<times> INPUT_INFORMATION) option" where
  "WriteBuffer env s Buffer =
    (if length Buffer = 1 \<and> Out s \<noteq> In s then
       (case coalesce env s (hd Buffer) of
          Some s1 \<Rightarrow> Some (STATUS_SUCCESS, 1, False, s1)
        | None \<Rightarrow> WriteLoop env s Buffer (length Buffer) 0 (length Buffer) False)
     else WriteLoop env s Buffer (length Buffer) 0 (length Buffer) False)"

subsection \<open>Creation, reset and flush\<close>

text \<open>
  The constructor: \<^verbatim>\<open>None\<close> is the exception thrown when the allocation fails.
  The initial input mode is ENABLE_LINE_INPUT, ENABLE_PROCESSED_INPUT, ENABLE_ECHO_INPUT
  and ENABLE_MOUSE_INPUT together.
\<close>

definition InitialInputMode :: "32 word" where
  "InitialInputMode = 0x17"

definition INPUT_INFORMATION_new :: "platform \<Rightarrow> nat \<Rightarrow> 32 word \<Rightarrow> INPUT_INFORMATION option" where
  "INPUT_INFORMATION_new env cEvents0 flags =
    (let cEvents1 = (if cEvents0 = 0 then DEFAULT_NUMBER_OF_EVENTS env else cEvents0);
         cEvents = (case DWordAdd cEvents1 1 of
                      None \<Rightarrow> DEFAULT_NUMBER_OF_EVENTS env
                    | Some uTemp \<Rightarrow>
                        (case DWordMult sizeof_INPUT_RECORD uTemp of
                           None \<Rightarrow> DEFAULT_NUMBER_OF_EVENTS env
                         | Some uTemp2 \<Rightarrow> cEvents1));
         BufferSize = sizeof_INPUT_RECORD * (cEvents + 1)
     in if \<not> alloc_ok env BufferSize then None
        else Some \<lparr>InputBuffer = map (fresh env) [0 ..< cEvents + 1],
                   InputBufferSize = cEvents, In = 0, Out = 0, InputMode = InitialInputMode,
                   InputWaitEvent = False, Flags = flags\<rparr>)"

definition ReinitializeInputBuffer :: "INPUT_INFORMATION \<Rightarrow> INPUT_INFORMATION" where
  "ReinitializeInputBuffer s =
     s\<lparr>InputWaitEvent := False, InputMode := InitialInputMode, In := 0, Out := 0\<rparr>"

definition FlushInputBuffer :: "INPUT_INFORMATION \<Rightarrow> INPUT_INFORMATION" where
  "FlushInputBuffer s = s\<lparr>In := 0, Out := 0, InputWaitEvent := False\<rparr>"

text \<open>
  The copy loop of \<^verbatim>\<open>FlushAllButKeys\<close>: it stops when \<^verbatim>\<open>InPtr\<close> reaches
  \<^verbatim>\<open>InputBuffer + InputBufferSize - 1\<close>, and copies the key events before that.
\<close>

fun flush_copy :: "nat \<Rightarrow> INPUT_RECORD list \<Rightarrow> nat \<Rightarrow> INPUT_RECORD list \<Rightarrow> nat \<times> INPUT_RECORD list" where
  "flush_copy lim [] InPtr buf = (InPtr, buf)"
| "flush_copy lim (r # Tmp) InPtr buf =
     (if InPtr \<ge> lim then (InPtr, buf)
      else if is_KEY_EVENT r then flush_copy lim Tmp (InPtr + 1) (buf[InPtr := r])
      else flush_copy lim Tmp InPtr buf)"

definition FlushAllButKeys :: "platform \<Rightarrow> INPUT_INFORMATION \<Rightarrow> NTSTATUS \<times> INPUT_INFORMATION" where
  "FlushAllButKeys env s =
    (if In s \<noteq> Out s then
       (case DWordMult sizeof_INPUT_RECORD (InputBufferSize s + 1) of
          None \<Rightarrow> (STATUS_INTEGER_OVERFLOW, s)
        | Some BufferSize \<Rightarrow>
            if \<not> alloc_ok env BufferSize then (STATUS_NO_MEMORY, s)
            else
              (case ReadBuffer env s (InputBufferSize s) True False True of
                 (Status, Tmp, NumberOfEventsRead, Dummy, s1) \<Rightarrow>
                   if \<not> NT_SUCCESS Status then (Status, s)
                   else
                     (case flush_copy (InputBufferSize s - 1) (take NumberOfEventsRead Tmp) 0
                             (InputBuffer s) of
                        (InPtr, buf) \<Rightarrow>
                          (STATUS_SUCCESS,
                           s\<lparr>Out := 0, InputBuffer := buf, In := InPtr,
                             InputWaitEvent := (if InPtr = 0 then False else InputWaitEvent s)\<rparr>))))
     else (STATUS_SUCCESS, s))"

subsection \<open>ReadInputBuffer\<close>

text \<open>
  \<^verbatim>\<open>WaitForMoreToRead\<close> is outside the source: the status it returns is the
  parameter \<^verbatim>\<open>WaitStatus\<close>. The result is the status, the records read, \<^verbatim>\<open>*pcLength\<close>,
  the handle's read count and the buffer. The model is sequential: a wait that returns
  with success has let a writer change the buffer in between, which is not described
  here, so the statements about reads are about calls in which the wait does not
  return a success status.
\<close>

definition ReadInputBuffer ::
  "platform \<Rightarrow> NTSTATUS \<Rightarrow> INPUT_INFORMATION \<Rightarrow> nat \<Rightarrow> bool \<Rightarrow> bool \<Rightarrow> bool \<Rightarrow> int \<Rightarrow> bool \<Rightarrow>
   NTSTATUS \<times> INPUT_RECORD list \<times> nat \<times> int \<times> INPUT_INFORMATION" where
  "ReadInputBuffer env WaitStatus s pcLength fPeek fWaitForData fStreamRead ReadCount fUnicode =
    (if In s = Out s \<and> \<not> fWaitForData then (STATUS_SUCCESS, [], 0, ReadCount, s)
     else if In s = Out s \<and> \<not> NT_SUCCESS WaitStatus then
       (WaitStatus, [], 0,
        (if WaitStatus \<noteq> CONSOLE_STATUS_WAIT then ReadCount + 1 - 1 else ReadCount + 1), s)
     else
       (case ReadBuffer env s pcLength fPeek fStreamRead fUnicode of
          (Status, recs, EventsRead, ResetWaitEvent, s1) \<Rightarrow>
            (Status, recs, EventsRead, (if In s = Out s then ReadCount + 1 else ReadCount),
             (if ResetWaitEvent then s1\<lparr>InputWaitEvent := False\<rparr> else s1))))"

subsection \<open>PreprocessInput, WriteInputBuffer and PrependInputBuffer\<close>

text \<open>
  \<^verbatim>\<open>PreprocessInput\<close> walks the records once; a stripped record is removed from the
  array. It returns the records kept (their number is the count returned) and the
  console flags.
\<close>

fun PreprocessInput ::
  "platform \<Rightarrow> 32 word \<Rightarrow> 32 word \<Rightarrow> INPUT_RECORD list \<Rightarrow> INPUT_RECORD list \<times> 32 word" where
  "PreprocessInput env mode fl [] = ([], fl)"
| "PreprocessInput env mode fl (KEY_EVENT k # rest) =
     (if bKeyDown k \<and> fl AND CONSOLE_SUSPENDED env \<noteq> 0 \<and> \<not> IsSystemKey env (wVirtualKeyCode k) then
        PreprocessInput env mode (UnblockWriteConsole env fl) rest
      else if bKeyDown k \<and> mode AND ENABLE_LINE_INPUT \<noteq> 0
              \<and> (wVirtualKeyCode k = VK_PAUSE \<or> IsPauseKey env k) then
        PreprocessInput env mode (fl OR CONSOLE_OUTPUT_SUSPENDED env) rest
      else (case PreprocessInput env mode fl rest of
              (kept, fl') \<Rightarrow> (KEY_EVENT k # kept, fl')))"
| "PreprocessInput env mode fl (r # rest) =
     (case PreprocessInput env mode fl rest of (kept, fl') \<Rightarrow> (r # kept, fl'))"

text \<open>
  \<^verbatim>\<open>WriteInputBuffer\<close> returns the count it reports and the buffer; \<^verbatim>\<open>None\<close> when
  the copy loop does not return.
\<close>

definition WriteInputBuffer ::
  "platform \<Rightarrow> INPUT_INFORMATION \<Rightarrow> INPUT_RECORD list \<Rightarrow> (nat \<times> INPUT_INFORMATION) option" where
  "WriteInputBuffer env s pInputRecord =
    (case PreprocessInput env (InputMode s) (Flags s) pInputRecord of
       (kept, fl) \<Rightarrow>
         if length kept = 0 then Some (0, s\<lparr>Flags := fl\<rparr>)
         else
           (case WriteBuffer env (s\<lparr>Flags := fl\<rparr>) kept of
              None \<Rightarrow> None
            | Some (Status, EventsWritten, SetWaitEvent, s1) \<Rightarrow>
                Some (EventsWritten,
                      if SetWaitEvent then s1\<lparr>InputWaitEvent := True\<rparr> else s1)))"

text \<open>
  \<^verbatim>\<open>PrependInputBuffer\<close> returns the status, \<^verbatim>\<open>*pcLength\<close> on exit and the buffer.
  On the early returns \<^verbatim>\<open>*pcLength\<close> keeps the value it had on entry.
\<close>

definition PrependInputBuffer ::
  "platform \<Rightarrow> INPUT_INFORMATION \<Rightarrow> INPUT_RECORD list \<Rightarrow>
   (NTSTATUS \<times> nat \<times> INPUT_INFORMATION) option" where
  "PrependInputBuffer env s pInputRecord =
    (case PreprocessInput env (InputMode s) (Flags s) pInputRecord of
       (kept, fl) \<Rightarrow>
         if length kept = 0 then Some (STATUS_SUCCESS, length pInputRecord, s\<lparr>Flags := fl\<rparr>)
         else if GetNumberOfReadyEvents s \<noteq> 0
                 \<and> DWordMult (GetNumberOfReadyEvents s) sizeof_INPUT_RECORD = None then
           Some (STATUS_INTEGER_OVERFLOW, length pInputRecord, s\<lparr>Flags := fl\<rparr>)
         else if GetNumberOfReadyEvents s \<noteq> 0
                 \<and> \<not> alloc_ok env (GetNumberOfReadyEvents s * sizeof_INPUT_RECORD) then
           Some (STATUS_NO_MEMORY, length pInputRecord, s\<lparr>Flags := fl\<rparr>)
         else
           (case (if GetNumberOfReadyEvents s \<noteq> 0
                  then ReadBuffer env (s\<lparr>Flags := fl\<rparr>) (GetNumberOfReadyEvents s) False False True
                  else (STATUS_SUCCESS, [], 0, False, s\<lparr>Flags := fl\<rparr>)) of
              (Status, pExistingEvents, EventsRead, Dummy, s1) \<Rightarrow>
                if \<not> NT_SUCCESS Status then Some (Status, length pInputRecord, s1)
                else
                  (case WriteBuffer env s1 kept of
                     None \<Rightarrow> None
                   | Some (Status1, EventsWritten1, SetWaitEvent, s2) \<Rightarrow>
                       (case (if GetNumberOfReadyEvents s \<noteq> 0
                              then WriteBuffer env s2 (take EventsRead pExistingEvents)
                              else Some (STATUS_SUCCESS, EventsWritten1, False, s2)) of
                          None \<Rightarrow> None
                        | Some (Status2, EventsWritten2, Dummy2, s3) \<Rightarrow>
                            Some (STATUS_SUCCESS, length kept,
                                  if SetWaitEvent then s3\<lparr>InputWaitEvent := True\<rparr> else s3)))))"

section \<open>The invalid region of the VT renderer\<close>

text \<open>
  A rectangle with exclusive right and bottom edges. The class \<^verbatim>\<open>Viewport\<close> is not
  part of the source at hand; its operations used by the renderer are given below
  as the specification describes them.
\<close>

record Viewport =
  Left :: int
  Top :: int
  RightExclusive :: int
  BottomExclusive :: int

text \<open>
  Modelled from the spec: \<^verbatim>\<open>Viewport::FromExclusive\<close> and \<^verbatim>\<open>Viewport::ToExclusive\<close>
  (missing with the class) convert between the viewport and a rectangle with exclusive
  edges, which is the representation used here.
\<close>

definition FromExclusive :: "Viewport \<Rightarrow> Viewport" where
  "FromExclusive r = r"

definition ToExclusive :: "Viewport \<Rightarrow> Viewport" where
  "ToExclusive v = v"

text \<open>
  Modelled from the spec: \<^verbatim>\<open>Viewport::OrViewports\<close> (missing with the class) is the
  union of two rectangles as the smallest rectangle covering both, not the precise
  non-convex union.
\<close>

definition OrViewports :: "Viewport \<Rightarrow> Viewport \<Rightarrow> Viewport" where
  "OrViewports lhs rhs =
     \<lparr>Left = min (Left lhs) (Left rhs), Top = min (Top lhs) (Top rhs),
      RightExclusive = max (RightExclusive lhs) (RightExclusive rhs),
      BottomExclusive = max (BottomExclusive lhs) (BottomExclusive rhs)\<rparr>"

text \<open>
  Modelled from the spec: \<^verbatim>\<open>Viewport::ToOrigin\<close> (missing with the class) translates
  the viewport to origin-relative coordinates.
\<close>

definition ToOrigin :: "Viewport \<Rightarrow> Viewport" where
  "ToOrigin v =
     \<lparr>Left = 0, Top = 0, RightExclusive = RightExclusive v - Left v,
      BottomExclusive = BottomExclusive v - Top v\<rparr>"

text \<open>
  Modelled from the spec: \<^verbatim>\<open>Viewport::TrimToViewport\<close> (missing with the class) clips
  a rectangle to the viewport's bounds: what extends outside is truncated, never
  discarded.
\<close>

definition TrimToViewport :: "Viewport \<Rightarrow> Viewport \<Rightarrow> Viewport" where
  "TrimToViewport v psr =
     \<lparr>Left = max (Left psr) (Left v), Top = max (Top psr) (Top v),
      RightExclusive = min (RightExclusive psr) (RightExclusive v),
      BottomExclusive = min (BottomExclusive psr) (BottomExclusive v)\<rparr>"

text \<open>
  Modelled from the spec: \<^verbatim>\<open>Viewport::AddCoord\<close> (missing with the class) slides a
  rectangle by a delta.
\<close>

definition AddCoord :: "Viewport \<Rightarrow> int \<times> int \<Rightarrow> Viewport" where
  "AddCoord v d =
     \<lparr>Left = Left v + fst d, Top = Top v + snd d,
      RightExclusive = RightExclusive v + fst d,
      BottomExclusive = BottomExclusive v + snd d\<rparr>"

record VtEngine =
  invalidRect :: Viewport
  fInvalidRectUsed :: bool
  lastViewport :: Viewport

definition InvalidRestrict :: "VtEngine \<Rightarrow> VtEngine" where
  "InvalidRestrict e =
     (let oldInvalid = ToExclusive (invalidRect e)
      in e\<lparr>invalidRect := FromExclusive (TrimToViewport (ToOrigin (lastViewport e)) oldInvalid)\<rparr>)"

definition InvalidCombine :: "VtEngine \<Rightarrow> Viewport \<Rightarrow> VtEngine" where
  "InvalidCombine e invalid =
     InvalidRestrict
       (if \<not> fInvalidRectUsed e then e\<lparr>invalidRect := invalid, fInvalidRectUsed := True\<rparr>
        else e\<lparr>invalidRect := OrViewports (invalidRect e) invalid\<rparr>)"

definition Invalidate :: "VtEngine \<Rightarrow> Viewport \<Rightarrow> VtEngine" where
  "Invalidate e psrRegion = InvalidCombine e (FromExclusive psrRegion)"

definition InvalidateAll :: "VtEngine \<Rightarrow> VtEngine" where
  "InvalidateAll e = InvalidCombine e (ToOrigin (lastViewport e))"

definition InvalidOffset :: "VtEngine \<Rightarrow> int \<times> int \<Rightarrow> VtEngine" where
  "InvalidOffset e pCoord =
     (if fInvalidRectUsed e then
        InvalidRestrict
          (e\<lparr>invalidRect := OrViewports (invalidRect e) (AddCoord (invalidRect e) pCoord)\<rparr>)
      else e)"

section \<open>Well-formed buffers and the queue they hold\<close>

text \<open>
  The buffers the operations produce: the store has \<^verbatim>\<open>InputBufferSize + 1\<close> records,
  both cursors point at a record of the store, there is room for at least one event,
  and the byte size of the store fits the \<^verbatim>\<open>ULONG\<close> in which the source keeps byte
  lengths.
\<close>

definition wf :: "INPUT_INFORMATION \<Rightarrow> bool" where
  "wf s \<longleftrightarrow>
     length (InputBuffer s) = InputBufferSize s + 1 \<and> In s \<le> InputBufferSize s
     \<and> Out s \<le> InputBufferSize s \<and> 1 \<le> InputBufferSize s
     \<and> sizeof_INPUT_RECORD * (InputBufferSize s + 1) < 2 ^ 32"

text \<open>The unread records, in the order in which a reader meets them.\<close>

definition queued :: "INPUT_INFORMATION \<Rightarrow> INPUT_RECORD list" where
  "queued s =
     (if In s < Out s then drop (Out s) (InputBuffer s) @ take (In s) (InputBuffer s)
      else take (In s - Out s) (drop (Out s) (InputBuffer s)))"

text \<open>The store index of the \<open>i\<close>-th unread record.\<close>

definition slot :: "INPUT_INFORMATION \<Rightarrow> nat \<Rightarrow> nat" where
  "slot s i = (if Out s + i < Last s then Out s + i else Out s + i - Last s)"

section \<open>Concrete platforms, records and buffers\<close>

text \<open>
  A platform on which no character is full width, no key is a system or pause key,
  every allocation succeeds and \<^verbatim>\<open>size_t\<close> has 64 bits; and the same platform with a
  heap on which every allocation fails.
\<close>

definition plain_platform :: platform where
  "plain_platform =
     \<lparr>IsCharFullWidth = (\<lambda>c. False), IsSystemKey = (\<lambda>c. False), IsPauseKey = (\<lambda>k. False),
      UnblockWriteConsole = (\<lambda>f. f), CONSOLE_SUSPENDED = 0x10, CONSOLE_OUTPUT_SUSPENDED = 0x10,
      alloc_ok = (\<lambda>n. True), fresh = (\<lambda>i. OTHER_EVENT 0), size_t_bits = 64,
      INPUT_BUFFER_SIZE_INCREMENT = 10, DEFAULT_NUMBER_OF_EVENTS = 50\<rparr>"

definition full_heap_platform :: platform where
  "full_heap_platform = plain_platform\<lparr>alloc_ok := (\<lambda>n. False)\<rparr>"

definition key_down :: "16 word \<Rightarrow> 16 word \<Rightarrow> KEY_EVENT_RECORD" where
  "key_down code rep =
     \<lparr>bKeyDown = True, wRepeatCount = rep, wVirtualKeyCode = code, wVirtualScanCode = code,
      UnicodeChar = code, dwControlKeyState = 0\<rparr>"

definition mouse_moved :: "16 word \<Rightarrow> 16 word \<Rightarrow> MOUSE_EVENT_RECORD" where
  "mouse_moved x y =
     \<lparr>dwMousePositionX = x, dwMousePositionY = y, dwButtonState = 0,
      dwMouseControlKeyState = 0, dwEventFlags = MOUSE_MOVED\<rparr>"

text \<open>A buffer over a given store with given cursors; the event is set when it holds a record.\<close>

definition buffer_of :: "INPUT_RECORD list \<Rightarrow> nat \<Rightarrow> nat \<Rightarrow> INPUT_INFORMATION" where
  "buffer_of store i out =
     \<lparr>InputBuffer = store, InputBufferSize = length store - 1, In = i, Out = out,
      InputMode = 0, InputWaitEvent = (i \<noteq> out), Flags = 0\<rparr>"

text \<open>
  The buffer after a successful \<^verbatim>\<open>SetInputBufferSize\<close> on a non-empty buffer: the
  unread records at the start of the new store, uninitialised records behind them.
\<close>

definition grown :: "platform \<Rightarrow> INPUT_INFORMATION \<Rightarrow> nat \<Rightarrow> INPUT_INFORMATION" where
  "grown env s Size =
     s\<lparr>Out := 0, In := GetNumberOfReadyEvents s, InputBufferSize := Size,
       InputBuffer := queued s @ map (fresh env) [GetNumberOfReadyEvents s ..< Size + 1]\<rparr>"

text \<open>Whether the allocation of a store for \<open>Size\<close> events goes through, and the status when not.\<close>

definition can_grow :: "platform \<Rightarrow> nat \<Rightarrow> bool" where
  "can_grow env Size \<longleftrightarrow>
     sizeof_INPUT_RECORD * (Size + 1) < 2 ^ size_t_bits env
     \<and> alloc_ok env (sizeof_INPUT_RECORD * (Size + 1))"

definition grow_status :: "platform \<Rightarrow> nat \<Rightarrow> NTSTATUS" where
  "grow_status env Size =
     (if sizeof_INPUT_RECORD * (Size + 1) < 2 ^ size_t_bits env then STATUS_NO_MEMORY
      else STATUS_INTEGER_OVERFLOW)"

text \<open>
  The number of records that can still be stored without growth, the length of the
  free stretch the copy loop fills in one iteration, the wrap of \<^verbatim>\<open>In\<close> at the end
  of the store, and the relation between a buffer and the buffer with some records
  added at the end of its queue.
\<close>

definition free_slots :: "INPUT_INFORMATION \<Rightarrow> nat" where
  "free_slots s = InputBufferSize s - GetNumberOfReadyEvents s"

definition run :: "INPUT_INFORMATION \<Rightarrow> nat" where
  "run s = (if Out s > In s then Out s - In s - 1
            else Last s - In s - (if First s = Out s then 1 else 0))"

definition wrapIn :: "INPUT_INFORMATION \<Rightarrow> INPUT_INFORMATION" where
  "wrapIn s = (if In s = Last s then s\<lparr>In := First s\<rparr> else s)"

definition appended :: "INPUT_INFORMATION \<Rightarrow> INPUT_RECORD list \<Rightarrow> INPUT_INFORMATION \<Rightarrow> bool" where
  "appended s xs s' \<longleftrightarrow>
     wf s' \<and> queued s' = queued s @ xs \<and> InputBufferSize s' = InputBufferSize s
     \<and> Out s' = Out s
     \<and> GetNumberOfReadyEvents s' = GetNumberOfReadyEvents s + length xs
     \<and> InputWaitEvent s' = InputWaitEvent s \<and> InputMode s' = InputMode s \<and> Flags s' = Flags s"

text \<open>
  What the copy loop is to deliver from a buffer \<open>s\<close> for the records \<open>Buffer\<close> still to
  be written of a request of \<open>Length\<close> records, \<open>EW\<close> of them written before: all records
  go in when they fit or the store can grow, and as many as fit otherwise.
\<close>

definition loop_post ::
  "platform \<Rightarrow> INPUT_INFORMATION \<Rightarrow> INPUT_RECORD list \<Rightarrow> nat \<Rightarrow> nat \<Rightarrow> bool \<Rightarrow>
   NTSTATUS \<times> nat \<times> bool \<times> INPUT_INFORMATION \<Rightarrow> bool" where
  "loop_post env s Buffer Length EW SW r =
    (let Size = InputBufferSize s + Length + INPUT_BUFFER_SIZE_INCREMENT env;
         fits = (length Buffer \<le> free_slots s);
         all = (fits \<or> can_grow env Size);
         k = (if all then length Buffer else free_slots s);
         s' = snd (snd (snd r))
     in fst r = (if all then STATUS_SUCCESS else grow_status env Size)
        \<and> fst (snd r) = EW + k
        \<and> fst (snd (snd r)) = (SW \<or> (0 < length Buffer \<and> Out s = In s))
        \<and> wf s' \<and> queued s' = queued s @ take k Buffer
        \<and> InputBufferSize s' = (if fits \<or> \<not> can_grow env Size then InputBufferSize s else Size)
        \<and> InputWaitEvent s' = InputWaitEvent s \<and> InputMode s' = InputMode s
        \<and> Flags s' = Flags s)"

text \<open>A heap with room for 40 bytes at most: two records can be allocated, a store cannot.\<close>

definition small_heap_platform :: platform where
  "small_heap_platform = plain_platform\<lparr>alloc_ok := (\<lambda>n. n \<le> 40)\<rparr>"

text \<open>The wait event is set exactly when the buffer holds a record.\<close>

definition signal_ok :: "INPUT_INFORMATION \<Rightarrow> bool" where
  "signal_ok s \<longleftrightarrow> (InputWaitEvent s \<longleftrightarrow> 0 < GetNumberOfReadyEvents s)"

text \<open>
  A single new record is merged into the last queued record instead of being
  appended: two mouse-moved events, or a key-down event that is not full width after
  a key-down event with the same character and control-key state and, unless the new
  record carries the IME conversion flag, the same scan code.
\<close>

fun coalescing_eligible :: "platform \<Rightarrow> INPUT_RECORD \<Rightarrow> INPUT_RECORD \<Rightarrow> bool" where
  "coalescing_eligible env (MOUSE_EVENT lm) (MOUSE_EVENT m) =
     (dwEventFlags m = MOUSE_MOVED \<and> dwEventFlags lm = MOUSE_MOVED)"
| "coalescing_eligible env (KEY_EVENT lk) (KEY_EVENT k) =
     (bKeyDown k \<and> \<not> IsCharFullWidth env (UnicodeChar k) \<and> bKeyDown lk
      \<and> UnicodeChar lk = UnicodeChar k \<and> dwControlKeyState lk = dwControlKeyState k
      \<and> (dwControlKeyState k AND NLS_IME_CONVERSION \<noteq> 0
          \<or> wVirtualScanCode lk = wVirtualScanCode k))"
| "coalescing_eligible env prev new = False"

text \<open>The plain platform built for 32 bits: \<^verbatim>\<open>size_t\<close> has 32 bits.\<close>

definition narrow_platform :: platform where
  "narrow_platform = plain_platform\<lparr>size_t_bits := 32\<rparr>"

section \<open>Properties\<close>

lemma queued_length: "wf s \<Longrightarrow> length (queued s) = GetNumberOfReadyEvents s"
  by (auto simp: wf_def queued_def GetNumberOfReadyEvents_def Last_def First_def)

lemma queued_nth:
  "wf s \<Longrightarrow> i < GetNumberOfReadyEvents s \<Longrightarrow> queued s ! i = InputBuffer s ! slot s i"
  by (auto simp: wf_def queued_def GetNumberOfReadyEvents_def Last_def First_def slot_def nth_append add.commute
      split: if_splits)

lemma last_queued:
  assumes "wf s" "Out s \<noteq> In s"
  shows "last (queued s) = InputBuffer s ! LastInputEvent s"
proof -
  have n: "GetNumberOfReadyEvents s > 0" using assms
    by (auto simp: GetNumberOfReadyEvents_def wf_def Last_def First_def)
  then have ne: "queued s \<noteq> []" using queued_length[OF assms(1)] by auto
  have "last (queued s) = queued s ! (GetNumberOfReadyEvents s - 1)"
    using ne by (simp add: last_conv_nth queued_length[OF assms(1)])
  also have "\<dots> = InputBuffer s ! slot s (GetNumberOfReadyEvents s - 1)"
    using n by (intro queued_nth assms) simp
  also have "slot s (GetNumberOfReadyEvents s - 1) = LastInputEvent s"
    using assms by (auto simp: slot_def GetNumberOfReadyEvents_def LastInputEvent_def wf_def Last_def First_def)
  finally show ?thesis .
qed

lemma queued_update_last:
  assumes "wf s" "Out s \<noteq> In s"
  shows "queued (s\<lparr>InputBuffer := (InputBuffer s)[LastInputEvent s := r]\<rparr>) = butlast (queued s) @ [r]"
proof -
  let ?s' = "s\<lparr>InputBuffer := (InputBuffer s)[LastInputEvent s := r]\<rparr>"
  have wf': "wf ?s'" using assms by (simp add: wf_def)
  have n: "GetNumberOfReadyEvents s > 0" using assms
    by (auto simp: GetNumberOfReadyEvents_def wf_def Last_def First_def)
  have c: "GetNumberOfReadyEvents ?s' = GetNumberOfReadyEvents s"
    by (simp add: GetNumberOfReadyEvents_def Last_def First_def)
  have li: "LastInputEvent s < length (InputBuffer s)"
    using assms by (auto simp: LastInputEvent_def wf_def Last_def First_def)
  show ?thesis
  proof (rule nth_equalityI)
    show "length (queued ?s') = length (butlast (queued s) @ [r])"
      using n by (simp add: queued_length[OF wf'] queued_length[OF assms(1)] c)
  next
    fix i assume "i < length (queued ?s')"
    then have i: "i < GetNumberOfReadyEvents s" by (simp add: queued_length[OF wf'] c)
    have sl: "slot ?s' i = slot s i" by (simp add: slot_def Last_def)
    have eq: "slot s i = LastInputEvent s \<longleftrightarrow> i = GetNumberOfReadyEvents s - 1"
      using assms i by (auto simp: slot_def GetNumberOfReadyEvents_def LastInputEvent_def wf_def Last_def First_def split: if_splits)
    have q': "queued ?s' ! i = (InputBuffer s)[LastInputEvent s := r] ! slot s i"
      using queued_nth[OF wf', of i] i c sl by simp
    have sli: "slot s i < length (InputBuffer s)"
      using assms i by (auto simp: slot_def GetNumberOfReadyEvents_def wf_def Last_def First_def split: if_splits)
    show "queued ?s' ! i = (butlast (queued s) @ [r]) ! i"
    proof (cases "i = GetNumberOfReadyEvents s - 1")
      case True
      then have "slot s i = LastInputEvent s" using eq by simp
      then show ?thesis using True li q'
        by (simp add: nth_append queued_length[OF assms(1)])
    next
      case False
      then have lt: "i < GetNumberOfReadyEvents s - 1" using i by simp
      have "slot s i \<noteq> LastInputEvent s" using eq False by simp
      then show ?thesis using lt i q'
        by (simp add: nth_append queued_length[OF assms(1)] nth_butlast queued_nth[OF assms(1)])
    qed
  qed
qed

lemma slot_less: "wf s \<Longrightarrow> i \<le> GetNumberOfReadyEvents s \<Longrightarrow> slot s i \<le> InputBufferSize s"
  by (auto simp: slot_def GetNumberOfReadyEvents_def wf_def Last_def First_def split: if_splits)

lemma count_advance:
  "wf s \<Longrightarrow> n \<le> GetNumberOfReadyEvents s \<Longrightarrow>
   GetNumberOfReadyEvents (s\<lparr>Out := slot s n\<rparr>) = GetNumberOfReadyEvents s - n"
  by (auto simp: slot_def GetNumberOfReadyEvents_def wf_def Last_def First_def split: if_splits)

lemma wf_advance:
  "wf s \<Longrightarrow> n \<le> GetNumberOfReadyEvents s \<Longrightarrow> wf (s\<lparr>Out := slot s n\<rparr>)"
  using slot_less[of s n] by (simp add: wf_def)

lemma slot_advance:
  "wf s \<Longrightarrow> n + i < GetNumberOfReadyEvents s \<Longrightarrow> slot (s\<lparr>Out := slot s n\<rparr>) i = slot s (n + i)"
  by (auto simp: slot_def GetNumberOfReadyEvents_def wf_def Last_def First_def split: if_splits)

lemma queued_advance:
  assumes "wf s" "n \<le> GetNumberOfReadyEvents s"
  shows "queued (s\<lparr>Out := slot s n\<rparr>) = drop n (queued s)"
proof (rule nth_equalityI)
  show "length (queued (s\<lparr>Out := slot s n\<rparr>)) = length (drop n (queued s))"
    using assms by (simp add: queued_length wf_advance count_advance)
next
  fix i assume "i < length (queued (s\<lparr>Out := slot s n\<rparr>))"
  then have i: "n + i < GetNumberOfReadyEvents s"
    using assms by (simp add: queued_length wf_advance count_advance)
  have "queued (s\<lparr>Out := slot s n\<rparr>) ! i = InputBuffer s ! slot s (n + i)"
    using queued_nth[OF wf_advance[OF assms], of i] i assms
    by (simp add: count_advance slot_advance)
  also have "\<dots> = drop n (queued s) ! i"
    using i assms by (simp add: queued_length queued_nth)
  finally show "queued (s\<lparr>Out := slot s n\<rparr>) ! i = drop n (queued s) ! i" .
qed

lemma hd_queued:
  assumes "wf s" "Out s \<noteq> In s"
  shows "hd (queued s) = InputBuffer s ! Out s"
proof -
  have n: "0 < GetNumberOfReadyEvents s" using assms
    by (auto simp: GetNumberOfReadyEvents_def wf_def Last_def First_def)
  then have "queued s \<noteq> []" using queued_length[OF assms(1)] by auto
  then have "hd (queued s) = queued s ! 0" by (simp add: hd_conv_nth)
  also have "\<dots> = InputBuffer s ! slot s 0" using n by (rule queued_nth[OF assms(1)])
  also have "slot s 0 = Out s" using assms by (simp add: slot_def wf_def Last_def)
  finally show ?thesis .
qed

text \<open>
  What a read in stream mode does on a non-empty buffer whose next record is a key
  event: it delivers exactly one record, a copy of the stored record with the repeat
  count it has, and advances the read cursor past it, whatever the length asked for and
  also when peeking. The wait event is to be reset exactly when the queue is then empty.
\<close>

lemma ReadBuffer_stream_key:
  assumes "wf s" and "Out s \<noteq> In s" and "is_KEY_EVENT (hd (queued s))"
  shows "ReadBuffer env s Length Peek True Unicode =
           (STATUS_SUCCESS, [hd (queued s)], 1, tl (queued s) = [], s\<lparr>Out := slot s 1\<rparr>)
         \<and> queued (s\<lparr>Out := slot s 1\<rparr>) = tl (queued s)
         \<and> GetNumberOfReadyEvents (s\<lparr>Out := slot s 1\<rparr>) = GetNumberOfReadyEvents s - 1"
proof -
  have n: "1 \<le> GetNumberOfReadyEvents s" using assms
    by (auto simp: GetNumberOfReadyEvents_def wf_def Last_def First_def)
  have q: "queued (s\<lparr>Out := slot s 1\<rparr>) = tl (queued s)"
    using queued_advance[OF assms(1) n] by (simp add: drop_Suc)
  have c: "GetNumberOfReadyEvents (s\<lparr>Out := slot s 1\<rparr>) = GetNumberOfReadyEvents s - 1"
    by (rule count_advance[OF assms(1) n])
  have e: "(tl (queued s) = []) = (slot s 1 = In s)"
  proof -
    have "(tl (queued s) = []) = (GetNumberOfReadyEvents s - 1 = 0)"
      using q c queued_length[OF wf_advance[OF assms(1) n]] by (metis length_0_conv)
    also have "\<dots> = (slot s 1 = In s)" using assms
      by (auto simp: slot_def GetNumberOfReadyEvents_def wf_def Last_def First_def split: if_splits)
    finally show ?thesis .
  qed
  have sl: "(if Last s = Out s + 1 then First s else Out s + 1) = slot s 1"
    using assms by (auto simp: slot_def wf_def Last_def First_def)
  have "ReadBuffer env s Length Peek True Unicode =
           (STATUS_SUCCESS, [hd (queued s)], 1, tl (queued s) = [], s\<lparr>Out := slot s 1\<rparr>)"
    using assms(3) unfolding ReadBuffer_def Let_def sl
    by (simp add: hd_queued[OF assms(1,2)] e)
  with q c show ?thesis by simp
qed

lemma wf_buffer_of:
  "2 \<le> length store \<Longrightarrow> length store < 1000 \<Longrightarrow> i < length store \<Longrightarrow> out < length store \<Longrightarrow> wf (buffer_of store i out)"
  unfolding wf_def buffer_of_def sizeof_INPUT_RECORD_def by simp arith

lemma ReadBuffer_stream_key_witness:
  "ReadBuffer plain_platform (buffer_of [KEY_EVENT (key_down 65 3), OTHER_EVENT 0] 1 0) 1 False True True =
     (STATUS_SUCCESS, [KEY_EVENT (key_down 65 3)], 1, True,
      buffer_of [KEY_EVENT (key_down 65 3), OTHER_EVENT 0] 1 0 \<lparr>Out := 1\<rparr>)"
proof -
  let ?s = "buffer_of [KEY_EVENT (key_down 65 3), OTHER_EVENT 0] 1 0"
  have w: "wf ?s" by (simp add: wf_buffer_of)
  have ne: "Out ?s \<noteq> In ?s" by (simp add: buffer_of_def)
  have q: "queued ?s = [KEY_EVENT (key_down 65 3)]" by (simp add: queued_def buffer_of_def)
  have k: "is_KEY_EVENT (hd (queued ?s))" by (simp only: q list.sel is_KEY_EVENT.simps)
  have sl: "slot ?s 1 = 1" by (simp add: slot_def buffer_of_def Last_def)
  show ?thesis
    using ReadBuffer_stream_key[OF w ne k, of plain_platform 1 False True] by (simp only: q sl list.sel) simp
qed

text \<open>
  C2. The claim, and the comments of \<^verbatim>\<open>ReadBuffer\<close>, have a stream-mode read emit one
  repetition of a key event and leave the stored record in the buffer. The code at a
  buffer holding one key event with repeat count 3: one stream-mode read delivers one
  record and leaves the queue empty, so the stored record has been removed.
\<close>

theorem stream_read_removes_record:
  "queued (buffer_of [KEY_EVENT (key_down 65 3), OTHER_EVENT 0] 1 0) = [KEY_EVENT (key_down 65 3)]
   \<and> fst (snd (snd (ReadBuffer plain_platform (buffer_of [KEY_EVENT (key_down 65 3), OTHER_EVENT 0] 1 0) 1 False True True))) = 1
   \<and> queued (snd (snd (snd (snd (ReadBuffer plain_platform (buffer_of [KEY_EVENT (key_down 65 3), OTHER_EVENT 0] 1 0) 1 False True True))))) = []
   \<and> GetNumberOfReadyEvents (snd (snd (snd (snd (ReadBuffer plain_platform (buffer_of [KEY_EVENT (key_down 65 3), OTHER_EVENT 0] 1 0) 1 False True True))))) = 0"
  by (simp add: ReadBuffer_def buffer_of_def queued_def GetNumberOfReadyEvents_def Last_def First_def)

lemma count_update_store:
  "GetNumberOfReadyEvents (s\<lparr>InputBuffer := b\<rparr>) = GetNumberOfReadyEvents s"
  by (simp add: GetNumberOfReadyEvents_def Last_def First_def)

text \<open>
  C4. On a non-empty buffer whose most recently written record is a mouse event with
  the moved flag, writing one mouse-moved record overwrites the position of that
  record in place: one record is reported written with success, the cursors, the
  capacity and the count of ready events are unchanged, and the queue differs only in
  the position stored in its last record.
\<close>

theorem WriteBuffer_mouse_moved:
  assumes "wf s" and "Out s \<noteq> In s"
    and "last (queued s) = MOUSE_EVENT lm" and "dwEventFlags lm = MOUSE_MOVED"
    and "dwEventFlags m = MOUSE_MOVED"
    and "s' = s\<lparr>InputBuffer := (InputBuffer s)[LastInputEvent s :=
                  MOUSE_EVENT (lm\<lparr>dwMousePositionX := dwMousePositionX m,
                                  dwMousePositionY := dwMousePositionY m\<rparr>)]\<rparr>"
  shows "WriteBuffer env s [MOUSE_EVENT m] = Some (STATUS_SUCCESS, 1, False, s')
         \<and> In s' = In s \<and> Out s' = Out s \<and> InputBufferSize s' = InputBufferSize s
         \<and> GetNumberOfReadyEvents s' = GetNumberOfReadyEvents s
         \<and> queued s' = butlast (queued s) @
              [MOUSE_EVENT (lm\<lparr>dwMousePositionX := dwMousePositionX m,
                               dwMousePositionY := dwMousePositionY m\<rparr>)]"
proof -
  have l: "InputBuffer s ! LastInputEvent s = MOUSE_EVENT lm"
    using last_queued[OF assms(1,2)] assms(3) by simp
  have "coalesce env s (MOUSE_EVENT m) = Some s'"
    using l assms(4,5,6) by (simp add: coalesce_def)
  then have w: "WriteBuffer env s [MOUSE_EVENT m] = Some (STATUS_SUCCESS, 1, False, s')"
    using assms(2) by (simp add: WriteBuffer_def)
  have q: "queued s' = butlast (queued s) @
              [MOUSE_EVENT (lm\<lparr>dwMousePositionX := dwMousePositionX m,
                               dwMousePositionY := dwMousePositionY m\<rparr>)]"
    unfolding assms(6) by (rule queued_update_last[OF assms(1,2)])
  show ?thesis using w q by (simp add: assms(6) count_update_store)
qed

theorem WriteBuffer_mouse_moved_witness:
  "WriteBuffer plain_platform
     (buffer_of [MOUSE_EVENT (mouse_moved 5 5), OTHER_EVENT 0, OTHER_EVENT 0] 1 0)
     [MOUSE_EVENT (mouse_moved 6 6)] =
   Some (STATUS_SUCCESS, 1, False,
         buffer_of [MOUSE_EVENT (mouse_moved 6 6), OTHER_EVENT 0, OTHER_EVENT 0] 1 0)
   \<and> GetNumberOfReadyEvents
        (buffer_of [MOUSE_EVENT (mouse_moved 6 6), OTHER_EVENT 0, OTHER_EVENT 0] 1 0) = 1"
proof -
  let ?s = "buffer_of [MOUSE_EVENT (mouse_moved 5 5), OTHER_EVENT 0, OTHER_EVENT 0] 1 0"
  let ?s' = "buffer_of [MOUSE_EVENT (mouse_moved 6 6), OTHER_EVENT 0, OTHER_EVENT 0] 1 0"
  have w: "wf ?s" by (simp add: wf_buffer_of)
  have ne: "Out ?s \<noteq> In ?s" by (simp add: buffer_of_def)
  have l: "last (queued ?s) = MOUSE_EVENT (mouse_moved 5 5)"
    by (simp add: queued_def buffer_of_def)
  have f: "dwEventFlags (mouse_moved 5 5) = MOUSE_MOVED" "dwEventFlags (mouse_moved 6 6) = MOUSE_MOVED"
    by (simp_all add: mouse_moved_def)
  have e: "?s' = ?s\<lparr>InputBuffer := (InputBuffer ?s)[LastInputEvent ?s :=
                  MOUSE_EVENT ((mouse_moved 5 5)\<lparr>dwMousePositionX := dwMousePositionX (mouse_moved 6 6),
                                  dwMousePositionY := dwMousePositionY (mouse_moved 6 6)\<rparr>)]\<rparr>"
    by (simp add: buffer_of_def LastInputEvent_def First_def mouse_moved_def)
  have c: "GetNumberOfReadyEvents ?s = 1"
    by (simp add: GetNumberOfReadyEvents_def buffer_of_def)
  from WriteBuffer_mouse_moved[OF w ne l f e, of plain_platform] c show ?thesis
    by simp
qed

lemma coalesce_key_match:
  assumes "InputBuffer s ! LastInputEvent s = KEY_EVENT lk"
    and "bKeyDown lk" and "bKeyDown k" and "\<not> IsCharFullWidth env (UnicodeChar k)"
    and "UnicodeChar lk = UnicodeChar k" and "dwControlKeyState lk = dwControlKeyState k"
    and "dwControlKeyState k AND NLS_IME_CONVERSION \<noteq> 0 \<or> wVirtualScanCode lk = wVirtualScanCode k"
  shows "coalesce env s (KEY_EVENT k) =
           Some (s\<lparr>InputBuffer := (InputBuffer s)[LastInputEvent s :=
                    KEY_EVENT (lk\<lparr>wRepeatCount := wRepeatCount lk + wRepeatCount k\<rparr>)]\<rparr>)"
  using assms by (auto simp: coalesce_def)

text \<open>
  C10. When a key-down record is merged into the last queued key-down record, the
  stored repeat count becomes the sum of the two repeat counts in 16-bit unsigned
  arithmetic: the write succeeds, and the value stored is the true sum modulo 2^16.
\<close>

theorem WriteBuffer_repeat_count_wraps:
  assumes "wf s" and "Out s \<noteq> In s"
    and "last (queued s) = KEY_EVENT lk" and "bKeyDown lk" and "bKeyDown k"
    and "\<not> IsCharFullWidth env (UnicodeChar k)"
    and "wVirtualScanCode lk = wVirtualScanCode k"
    and "UnicodeChar lk = UnicodeChar k"
    and "dwControlKeyState lk = dwControlKeyState k"
    and "s' = s\<lparr>InputBuffer := (InputBuffer s)[LastInputEvent s :=
                  KEY_EVENT (lk\<lparr>wRepeatCount := wRepeatCount lk + wRepeatCount k\<rparr>)]\<rparr>"
  shows "WriteBuffer env s [KEY_EVENT k] = Some (STATUS_SUCCESS, 1, False, s')
         \<and> last (queued s') = KEY_EVENT (lk\<lparr>wRepeatCount := wRepeatCount lk + wRepeatCount k\<rparr>)
         \<and> unat (wRepeatCount lk + wRepeatCount k)
             = (unat (wRepeatCount lk) + unat (wRepeatCount k)) mod 2 ^ 16"
proof -
  have l: "InputBuffer s ! LastInputEvent s = KEY_EVENT lk"
    using last_queued[OF assms(1,2)] assms(3) by simp
  have "coalesce env s (KEY_EVENT k) = Some s'"
    unfolding assms(10) using assms(4-9) by (intro coalesce_key_match[OF l]) simp_all
  then have w: "WriteBuffer env s [KEY_EVENT k] = Some (STATUS_SUCCESS, 1, False, s')"
    using assms(2) by (simp add: WriteBuffer_def)
  have q: "last (queued s') = KEY_EVENT (lk\<lparr>wRepeatCount := wRepeatCount lk + wRepeatCount k\<rparr>)"
    unfolding assms(10) by (simp add: queued_update_last[OF assms(1,2)])
  have u: "unat (wRepeatCount lk + wRepeatCount k)
             = (unat (wRepeatCount lk) + unat (wRepeatCount k)) mod 2 ^ 16"
    by (simp add: unat_word_ariths)
  show ?thesis using w q u by simp
qed

theorem WriteBuffer_repeat_count_wraps_witness:
  "WriteBuffer plain_platform
     (buffer_of [KEY_EVENT (key_down 65 65535), OTHER_EVENT 0, OTHER_EVENT 0] 1 0)
     [KEY_EVENT (key_down 65 2)] =
   Some (STATUS_SUCCESS, 1, False,
         buffer_of [KEY_EVENT (key_down 65 1), OTHER_EVENT 0, OTHER_EVENT 0] 1 0)
   \<and> unat (65535 + 2 :: 16 word) = (65535 + 2) mod 2 ^ 16"
proof -
  let ?s = "buffer_of [KEY_EVENT (key_down 65 65535), OTHER_EVENT 0, OTHER_EVENT 0] 1 0"
  let ?s' = "buffer_of [KEY_EVENT (key_down 65 1), OTHER_EVENT 0, OTHER_EVENT 0] 1 0"
  have w: "wf ?s" by (simp add: wf_buffer_of)
  have ne: "Out ?s \<noteq> In ?s" by (simp add: buffer_of_def)
  have l: "last (queued ?s) = KEY_EVENT (key_down 65 65535)"
    by (simp add: queued_def buffer_of_def)
  have k: "bKeyDown (key_down 65 65535)" "bKeyDown (key_down 65 2)"
    "\<not> IsCharFullWidth plain_platform (UnicodeChar (key_down 65 2))"
    "wVirtualScanCode (key_down 65 65535) = wVirtualScanCode (key_down 65 2)"
    "UnicodeChar (key_down 65 65535) = UnicodeChar (key_down 65 2)"
    "dwControlKeyState (key_down 65 65535) = dwControlKeyState (key_down 65 2)"
    by (simp_all add: key_down_def plain_platform_def)
  have e: "?s' = ?s\<lparr>InputBuffer := (InputBuffer ?s)[LastInputEvent ?s :=
                  KEY_EVENT ((key_down 65 65535)\<lparr>wRepeatCount :=
                     wRepeatCount (key_down 65 65535) + wRepeatCount (key_down 65 2)\<rparr>)]\<rparr>"
    by (simp add: buffer_of_def LastInputEvent_def First_def key_down_def)
  have r: "wRepeatCount (key_down 65 65535) = 65535" "wRepeatCount (key_down 65 2) = 2"
    by (simp_all add: key_down_def)
  from WriteBuffer_repeat_count_wraps[OF w ne l k e] show ?thesis
    unfolding r by simp
qed

text \<open>
  C8. From a tracker with no invalid region, \<^verbatim>\<open>Invalidate(A)\<close> then
  \<^verbatim>\<open>Invalidate(B)\<close> leaves the region in use and equal to the smallest rectangle
  covering A and B, clipped to the viewport moved to the origin. The clipped rectangle
  lies within the viewport's bounds on every side where the viewport is not inverted,
  it is truncated and not discarded, and clipping the results of \<^verbatim>\<open>_InvalidCombine\<close>
  and \<^verbatim>\<open>_InvalidOffset\<close> once more changes nothing: they end with the clipping step.
\<close>

lemma Trim_Or_Trim:
  "TrimToViewport (ToOrigin v) (OrViewports (TrimToViewport (ToOrigin v) A) B)
     = TrimToViewport (ToOrigin v) (OrViewports A B)"
  by (simp add: TrimToViewport_def OrViewports_def ToOrigin_def) (simp add: min_def max_def)

lemma Trim_Trim: "TrimToViewport v (TrimToViewport v r) = TrimToViewport v r"
  by (simp add: TrimToViewport_def)

lemma InvalidRestrict_idem: "InvalidRestrict (InvalidRestrict e) = InvalidRestrict e"
  by (simp add: InvalidRestrict_def FromExclusive_def ToExclusive_def Trim_Trim)

lemma Invalidate_fresh:
  "Invalidate (e\<lparr>fInvalidRectUsed := False\<rparr>) A
     = e\<lparr>invalidRect := TrimToViewport (ToOrigin (lastViewport e)) A, fInvalidRectUsed := True\<rparr>"
  by (simp add: Invalidate_def InvalidCombine_def InvalidRestrict_def FromExclusive_def
      ToExclusive_def)

lemma Invalidate_used:
  "fInvalidRectUsed e \<Longrightarrow> Invalidate e B
     = e\<lparr>invalidRect := TrimToViewport (ToOrigin (lastViewport e)) (OrViewports (invalidRect e) B)\<rparr>"
  by (simp add: Invalidate_def InvalidCombine_def InvalidRestrict_def FromExclusive_def
      ToExclusive_def)

lemma Trim_bounds:
  "0 \<le> Left (TrimToViewport (ToOrigin v) r)" "0 \<le> Top (TrimToViewport (ToOrigin v) r)"
  "RightExclusive (TrimToViewport (ToOrigin v) r) \<le> RightExclusive v - Left v"
  "BottomExclusive (TrimToViewport (ToOrigin v) r) \<le> BottomExclusive v - Top v"
  by (simp_all add: TrimToViewport_def ToOrigin_def)

theorem Invalidate_twice:
  "Invalidate (Invalidate (e\<lparr>fInvalidRectUsed := False\<rparr>) A) B
     = e\<lparr>invalidRect := TrimToViewport (ToOrigin (lastViewport e)) (OrViewports A B),
         fInvalidRectUsed := True\<rparr>
   \<and> 0 \<le> Left (invalidRect (Invalidate (Invalidate (e\<lparr>fInvalidRectUsed := False\<rparr>) A) B))
   \<and> 0 \<le> Top (invalidRect (Invalidate (Invalidate (e\<lparr>fInvalidRectUsed := False\<rparr>) A) B))
   \<and> RightExclusive (invalidRect (Invalidate (Invalidate (e\<lparr>fInvalidRectUsed := False\<rparr>) A) B))
        \<le> RightExclusive (lastViewport e) - Left (lastViewport e)
   \<and> BottomExclusive (invalidRect (Invalidate (Invalidate (e\<lparr>fInvalidRectUsed := False\<rparr>) A) B))
        \<le> BottomExclusive (lastViewport e) - Top (lastViewport e)
   \<and> InvalidRestrict (InvalidCombine e A) = InvalidCombine e A
   \<and> InvalidRestrict (InvalidOffset (e\<lparr>fInvalidRectUsed := True\<rparr>) d)
        = InvalidOffset (e\<lparr>fInvalidRectUsed := True\<rparr>) d"
proof -
  have two: "Invalidate (Invalidate (e\<lparr>fInvalidRectUsed := False\<rparr>) A) B
     = e\<lparr>invalidRect := TrimToViewport (ToOrigin (lastViewport e)) (OrViewports A B),
         fInvalidRectUsed := True\<rparr>"
    by (simp add: Invalidate_fresh Invalidate_used Trim_Or_Trim)
  have c: "InvalidRestrict (InvalidCombine e A) = InvalidCombine e A"
    unfolding InvalidCombine_def by (rule InvalidRestrict_idem)
  have off: "InvalidRestrict (InvalidOffset (e\<lparr>fInvalidRectUsed := True\<rparr>) d)
        = InvalidOffset (e\<lparr>fInvalidRectUsed := True\<rparr>) d"
    by (simp add: InvalidOffset_def InvalidRestrict_idem)
  show ?thesis unfolding two using c off by (simp add: Trim_bounds)
qed

lemma ReadBuffer_unicode_contig:
  assumes "wf s" and "Out s < In s"
  shows "ReadBuffer env s Length Peek False True =
    (STATUS_SUCCESS, take Length (queued s), min Length (GetNumberOfReadyEvents s),
     (if Peek then Out s else slot s (min Length (GetNumberOfReadyEvents s))) = In s,
     s\<lparr>Out := (if Peek then Out s else slot s (min Length (GetNumberOfReadyEvents s)))\<rparr>)"
  using assms
  by (auto simp: ReadBuffer_def Let_def queued_def GetNumberOfReadyEvents_def slot_def wf_def
      Last_def First_def min_def)

lemma ReadBuffer_unicode_wrapped:
  assumes "wf s" and "In s < Out s"
  shows "ReadBuffer env s Length Peek False True =
    (STATUS_SUCCESS, take Length (queued s), min Length (GetNumberOfReadyEvents s),
     (if Peek then Out s else slot s (min Length (GetNumberOfReadyEvents s))) = In s,
     s\<lparr>Out := (if Peek then Out s else slot s (min Length (GetNumberOfReadyEvents s)))\<rparr>)"
proof (cases "Length \<le> Last s - Out s")
  case True
  with assms show ?thesis
    by (auto simp: ReadBuffer_def Let_def queued_def GetNumberOfReadyEvents_def slot_def wf_def
      Last_def First_def min_def)
next
  case False
  with assms show ?thesis
    by (auto simp: ReadBuffer_def Let_def queued_def GetNumberOfReadyEvents_def slot_def wf_def
      Last_def First_def min_def)
qed

lemma ReadBuffer_unicode:
  assumes "wf s" and "Out s \<noteq> In s"
  shows "ReadBuffer env s Length Peek False True =
    (STATUS_SUCCESS, take Length (queued s), min Length (GetNumberOfReadyEvents s),
     (if Peek then Out s else slot s (min Length (GetNumberOfReadyEvents s))) = In s,
     s\<lparr>Out := (if Peek then Out s else slot s (min Length (GetNumberOfReadyEvents s)))\<rparr>)"
proof (cases "Out s < In s")
  case True
  then show ?thesis by (rule ReadBuffer_unicode_contig[OF assms(1)])
next
  case False
  with assms(2) have "In s < Out s" by simp
  then show ?thesis by (rule ReadBuffer_unicode_wrapped[OF assms(1)])
qed

lemma count_le_cap: "wf s \<Longrightarrow> GetNumberOfReadyEvents s \<le> InputBufferSize s"
  by (auto simp: GetNumberOfReadyEvents_def wf_def Last_def First_def)

lemma count_pos: "wf s \<Longrightarrow> Out s \<noteq> In s \<Longrightarrow> 0 < GetNumberOfReadyEvents s"
  by (auto simp: GetNumberOfReadyEvents_def wf_def Last_def First_def)

lemma ULONG_id: "n < 2 ^ 32 \<Longrightarrow> ULONG n = n"
  by (simp add: ULONG_def)

lemma SetInputBufferSize_fail:
  assumes "\<not> can_grow env Size" and "Size + 1 < 2 ^ 32"
  shows "SetInputBufferSize env s Size = (grow_status env Size, s)"
    and "\<not> NT_SUCCESS (grow_status env Size)"
proof -
  have u: "ULONG (Size + 1) = Size + 1"
    using assms(2) by (rule ULONG_id)
  show "SetInputBufferSize env s Size = (grow_status env Size, s)"
    using assms(1) unfolding SetInputBufferSize_def SizeTMult_def u can_grow_def grow_status_def
    by auto
  show "\<not> NT_SUCCESS (grow_status env Size)"
    by (simp add: NT_SUCCESS_def grow_status_def)
qed

lemma SetInputBufferSize_ok:
  assumes "wf s" and "Out s \<noteq> In s" and "InputBufferSize s \<le> Size"
    and "can_grow env Size" and "sizeof_INPUT_RECORD * (Size + 1) < 2 ^ 32"
  shows "SetInputBufferSize env s Size = (STATUS_SUCCESS, grown env s Size)"
proof -
  have u: "ULONG (Size + 1) = Size + 1"
    using assms(5) by (intro ULONG_id) (simp add: sizeof_INPUT_RECORD_def)
  have c: "GetNumberOfReadyEvents s \<le> Size"
    using count_le_cap[OF assms(1)] assms(3) by simp
  have t: "take Size (queued s) = queued s"
    using c by (simp add: queued_length[OF assms(1)])
  have d: "(sizeof_INPUT_RECORD + sizeof_INPUT_RECORD * Size) div sizeof_INPUT_RECORD = Suc Size"
    by (simp add: sizeof_INPUT_RECORD_def)
  show ?thesis
    using assms(4) c unfolding SetInputBufferSize_def SizeTMult_def u can_grow_def
    by (simp add: ReadBuffer_unicode[OF assms(1,2)] t d NT_SUCCESS_def grown_def min_def
        del: upt_Suc)
qed

lemma grown_props:
  assumes "wf s" and "InputBufferSize s \<le> Size" and "1 \<le> Size"
    and "sizeof_INPUT_RECORD * (Size + 1) < 2 ^ 32"
  shows "wf (grown env s Size)" and "queued (grown env s Size) = queued s"
    and "GetNumberOfReadyEvents (grown env s Size) = GetNumberOfReadyEvents s"
    and "Out (grown env s Size) = 0" and "In (grown env s Size) = GetNumberOfReadyEvents s"
    and "InputBufferSize (grown env s Size) = Size"
    and "take (GetNumberOfReadyEvents s) (InputBuffer (grown env s Size)) = queued s"
proof -
  have c: "GetNumberOfReadyEvents s \<le> Size"
    using count_le_cap[OF assms(1)] assms(2) by simp
  show "wf (grown env s Size)"
    using c assms(3,4) by (simp add: wf_def grown_def queued_length[OF assms(1)])
  show "queued (grown env s Size) = queued s"
    unfolding queued_def[of "grown env s Size"]
    by (simp add: grown_def queued_length[OF assms(1)])
  show "GetNumberOfReadyEvents (grown env s Size) = GetNumberOfReadyEvents s"
    unfolding GetNumberOfReadyEvents_def[of "grown env s Size"]
    by (simp add: grown_def First_def)
  show "Out (grown env s Size) = 0" "In (grown env s Size) = GetNumberOfReadyEvents s"
    "InputBufferSize (grown env s Size) = Size"
    by (simp_all add: grown_def)
  show "take (GetNumberOfReadyEvents s) (InputBuffer (grown env s Size)) = queued s"
    by (simp add: grown_def queued_length[OF assms(1)])
qed

text \<open>
  On a non-empty buffer, a successful \<^verbatim>\<open>SetInputBufferSize\<close> to a size greater than
  the current one keeps the number of ready events and the queue itself: the unread
  records are the first records of the new store, in their order, with \<^verbatim>\<open>Out\<close> at the
  start of the store and \<^verbatim>\<open>In\<close> right behind them.
\<close>

lemma SetInputBufferSize_keeps_queue:
  assumes "wf s" and "Out s \<noteq> In s" and "InputBufferSize s < Size"
    and "sizeof_INPUT_RECORD * (Size + 1) < 2 ^ 32"
    and "SetInputBufferSize env s Size = (STATUS_SUCCESS, s')"
  shows "GetNumberOfReadyEvents s' = GetNumberOfReadyEvents s \<and> queued s' = queued s
         \<and> Out s' = 0 \<and> In s' = GetNumberOfReadyEvents s
         \<and> take (GetNumberOfReadyEvents s) (InputBuffer s') = queued s
         \<and> InputBufferSize s' = Size \<and> wf s'"
proof (cases "can_grow env Size")
  case True
  have le: "InputBufferSize s \<le> Size" "1 \<le> Size" using assms(1,3) by (simp_all add: wf_def)
  have "s' = grown env s Size"
    using SetInputBufferSize_ok[OF assms(1,2) le(1) True assms(4)] assms(5) by simp
  then show ?thesis
    using grown_props[OF assms(1) le assms(4), of env] by simp
next
  case False
  have "Size + 1 < 2 ^ 32" using assms(4) by (simp add: sizeof_INPUT_RECORD_def)
  from SetInputBufferSize_fail(1)[OF False this, of s] assms(5) show ?thesis
    by (simp add: grow_status_def split: if_splits)
qed

lemma SetInputBufferSize_keeps_queue_witness:
  "SetInputBufferSize plain_platform
     (buffer_of [KEY_EVENT (key_down 66 1), OTHER_EVENT 0, KEY_EVENT (key_down 65 1)] 1 2) 4
   = (STATUS_SUCCESS,
      buffer_of [KEY_EVENT (key_down 65 1), KEY_EVENT (key_down 66 1), OTHER_EVENT 0,
                 OTHER_EVENT 0, OTHER_EVENT 0] 2 0)
   \<and> GetNumberOfReadyEvents
        (buffer_of [KEY_EVENT (key_down 65 1), KEY_EVENT (key_down 66 1), OTHER_EVENT 0,
                 OTHER_EVENT 0, OTHER_EVENT 0] 2 0) = 2
   \<and> queued (buffer_of [KEY_EVENT (key_down 65 1), KEY_EVENT (key_down 66 1), OTHER_EVENT 0,
                 OTHER_EVENT 0, OTHER_EVENT 0] 2 0)
       = [KEY_EVENT (key_down 65 1), KEY_EVENT (key_down 66 1)]"
proof -
  let ?s = "buffer_of [KEY_EVENT (key_down 66 1), OTHER_EVENT 0, KEY_EVENT (key_down 65 1)] 1 2"
  let ?s' = "buffer_of [KEY_EVENT (key_down 65 1), KEY_EVENT (key_down 66 1), OTHER_EVENT 0,
                 OTHER_EVENT 0, OTHER_EVENT 0] 2 0"
  have w: "wf ?s" by (simp add: wf_buffer_of)
  have ne: "Out ?s \<noteq> In ?s" by (simp add: buffer_of_def)
  have lt: "InputBufferSize ?s < 4" by (simp add: buffer_of_def)
  have b: "sizeof_INPUT_RECORD * (4 + 1) < 2 ^ 32" by (simp add: sizeof_INPUT_RECORD_def)
  have r: "SetInputBufferSize plain_platform ?s 4 = (STATUS_SUCCESS, ?s')"
    by (simp add: SetInputBufferSize_def SizeTMult_def ULONG_def sizeof_INPUT_RECORD_def
        plain_platform_def ReadBuffer_def buffer_of_def Last_def First_def NT_SUCCESS_def
        upt_rec)
  have c: "GetNumberOfReadyEvents ?s = 2" "queued ?s = [KEY_EVENT (key_down 65 1), KEY_EVENT (key_down 66 1)]"
    by (simp_all add: GetNumberOfReadyEvents_def queued_def buffer_of_def Last_def First_def)
  from SetInputBufferSize_keeps_queue[OF w ne lt b r] r show ?thesis
    unfolding c by simp
qed

text \<open>
  C1. The claim has \<^verbatim>\<open>SetInputBufferSize\<close> keep the number of ready events on every
  buffer. The code at the empty buffer the constructor creates for two events: the
  buffer holds no record, and after a successful \<^verbatim>\<open>SetInputBufferSize\<close> to five
  events three records are counted as ready.
\<close>

theorem SetInputBufferSize_empty_buffer:
  "INPUT_INFORMATION_new plain_platform 2 0
     = Some (buffer_of [OTHER_EVENT 0, OTHER_EVENT 0, OTHER_EVENT 0] 0 0 \<lparr>InputMode := InitialInputMode\<rparr>)
   \<and> GetNumberOfReadyEvents
        (buffer_of [OTHER_EVENT 0, OTHER_EVENT 0, OTHER_EVENT 0] 0 0 \<lparr>InputMode := InitialInputMode\<rparr>) = 0
   \<and> fst (SetInputBufferSize plain_platform
        (buffer_of [OTHER_EVENT 0, OTHER_EVENT 0, OTHER_EVENT 0] 0 0 \<lparr>InputMode := InitialInputMode\<rparr>) 5)
       = STATUS_SUCCESS
   \<and> GetNumberOfReadyEvents (snd (SetInputBufferSize plain_platform
        (buffer_of [OTHER_EVENT 0, OTHER_EVENT 0, OTHER_EVENT 0] 0 0 \<lparr>InputMode := InitialInputMode\<rparr>) 5))
       = 3"
  by (simp add: INPUT_INFORMATION_new_def DWordAdd_def DWordMult_def
        SetInputBufferSize_def SizeTMult_def ULONG_def sizeof_INPUT_RECORD_def
        plain_platform_def ReadBuffer_def buffer_of_def Last_def First_def NT_SUCCESS_def
        GetNumberOfReadyEvents_def upt_rec)

lemma copy_in_low:
  assumes "wf s" and "In s < Out s" and "TL \<le> length Buffer" and "TL \<le> Out s - In s - 1"
  shows "\<exists>s2. copy_in s Buffer TL = Some s2 \<and> In s2 \<noteq> Last s2 \<and> appended s (take TL Buffer) s2"
  using assms
  by (auto simp: copy_in_def appended_def wf_def queued_def GetNumberOfReadyEvents_def
      Last_def First_def min_def)

lemma copy_in_high:
  assumes "wf s" and "Out s \<le> In s" and "TL \<le> length Buffer"
    and "TL \<le> Last s - In s - (if First s = Out s then 1 else 0)"
  shows "\<exists>s2. copy_in s Buffer TL = Some s2 \<and> appended s (take TL Buffer) (wrapIn s2)"
proof -
  consider "TL = 0" | "0 < TL" "In s + TL = Last s" | "0 < TL" "In s + TL \<noteq> Last s"
    by blast
  then show ?thesis
  proof cases
    case 1
    with assms show ?thesis
      by (auto simp: copy_in_def appended_def wf_def queued_def GetNumberOfReadyEvents_def
          Last_def First_def wrapIn_def)
  next
    case 2
    with assms show ?thesis
      by (auto simp: copy_in_def appended_def wf_def queued_def GetNumberOfReadyEvents_def
          Last_def First_def min_def wrapIn_def drop_take split: if_splits)
  next
    case 3
    with assms show ?thesis
      by (auto simp: copy_in_def appended_def wf_def queued_def GetNumberOfReadyEvents_def
          Last_def First_def min_def wrapIn_def drop_take split: if_splits)
  qed
qed

lemma WriteLoop_done:
  "\<not> EW < Length \<Longrightarrow> WriteLoop env s B Length EW BLIB SW = Some (STATUS_SUCCESS, EW, SW, s)"
  by (subst WriteLoop.simps) simp

lemma nonempty_cursors: "wf s \<Longrightarrow> 0 < GetNumberOfReadyEvents s \<Longrightarrow> Out s \<noteq> In s"
  by (auto simp: GetNumberOfReadyEvents_def)

lemma loop_post_done:
  "wf s \<Longrightarrow> loop_post env s [] Length EW SW (STATUS_SUCCESS, EW, SW, s)"
  by (simp add: loop_post_def Let_def)

lemma loop_post_all:
  assumes "appended s Buffer s3" and "length Buffer \<le> free_slots s" and "0 < length Buffer"
  shows "loop_post env s Buffer Length EW SW
           (STATUS_SUCCESS, EW + length Buffer, SW \<or> Out s = In s, s3)"
  using assms by (simp add: loop_post_def Let_def appended_def)

lemma loop_post_grown:
  assumes "appended (grown env s (InputBufferSize s + Length + INPUT_BUFFER_SIZE_INCREMENT env)) Buffer s3"
    and "wf s" and "sizeof_INPUT_RECORD * (InputBufferSize s + Length + INPUT_BUFFER_SIZE_INCREMENT env + 1) < 2 ^ 32"
    and "\<not> length Buffer \<le> free_slots s" and "Out s \<noteq> In s"
    and "can_grow env (InputBufferSize s + Length + INPUT_BUFFER_SIZE_INCREMENT env)"
  shows "loop_post env s Buffer Length EW SW (STATUS_SUCCESS, EW + length Buffer, SW, s3)"
proof -
  let ?Size = "InputBufferSize s + Length + INPUT_BUFFER_SIZE_INCREMENT env"
  have le: "InputBufferSize s \<le> ?Size" "1 \<le> ?Size" using assms(2) by (simp_all add: wf_def)
  note g = grown_props[OF assms(2) le assms(3), of env]
  show ?thesis
    using assms(1,4,5,6) g(2,6)
    by (simp add: loop_post_def Let_def appended_def grown_def)
qed

lemma loop_post_stuck:
  assumes "wf s" and "free_slots s = 0" and "0 < length Buffer" and "Out s \<noteq> In s"
    and "\<not> can_grow env (InputBufferSize s + Length + INPUT_BUFFER_SIZE_INCREMENT env)"
  shows "loop_post env s Buffer Length EW SW
          (grow_status env (InputBufferSize s + Length + INPUT_BUFFER_SIZE_INCREMENT env), EW, SW, s)"
  using assms by (simp add: loop_post_def Let_def)

lemma loop_post_step:
  assumes "appended s (take TL Buffer) s3" and "wf s" and "1 \<le> TL" and "TL \<le> length Buffer"
    and "TL \<le> free_slots s"
    and "loop_post env s3 (drop TL Buffer) Length (EW + TL) (SW \<or> Out s = In s) r"
  shows "loop_post env s Buffer Length EW SW r"
proof -
  have a: "wf s3" "queued s3 = queued s @ take TL Buffer" "InputBufferSize s3 = InputBufferSize s"
    "GetNumberOfReadyEvents s3 = GetNumberOfReadyEvents s + TL"
    "InputWaitEvent s3 = InputWaitEvent s" "InputMode s3 = InputMode s" "Flags s3 = Flags s"
    using assms(1,4) by (simp_all add: appended_def)
  have ne: "Out s3 \<noteq> In s3"
    using nonempty_cursors[OF a(1)] a(4) assms(3) by simp
  have f: "free_slots s3 = free_slots s - TL" by (simp add: free_slots_def a)
  have fits: "(length Buffer - TL \<le> free_slots s - TL) = (length Buffer \<le> free_slots s)"
    using assms(4,5) by auto
  have t1: "take TL Buffer @ take (length Buffer - TL) (drop TL Buffer) = take (length Buffer) Buffer"
    using assms(4) by (simp add: take_add[symmetric] del: take_all)
  have t2: "take TL Buffer @ take (free_slots s - TL) (drop TL Buffer) = take (free_slots s) Buffer"
    using assms(5) by (simp add: take_add[symmetric] del: take_all)
  have pos: "0 < length Buffer" using assms(3,4) by (cases Buffer) simp_all
  let ?Size = "InputBufferSize s + Length + INPUT_BUFFER_SIZE_INCREMENT env"
  let ?all = "length Buffer \<le> free_slots s \<or> can_grow env ?Size"
  let ?s' = "snd (snd (snd r))"
  have p: "fst r = (if ?all then STATUS_SUCCESS else grow_status env ?Size)"
    "fst (snd r) = EW + TL + (if ?all then length Buffer - TL else free_slots s - TL)"
    "fst (snd (snd r)) = (SW \<or> Out s = In s)"
    "wf ?s'"
    "queued ?s' = queued s @ take TL Buffer
        @ take (if ?all then length Buffer - TL else free_slots s - TL) (drop TL Buffer)"
    "InputBufferSize ?s' = (if length Buffer \<le> free_slots s \<or> \<not> can_grow env ?Size
                             then InputBufferSize s else ?Size)"
    "InputWaitEvent ?s' = InputWaitEvent s" "InputMode ?s' = InputMode s" "Flags ?s' = Flags s"
    using assms(6) ne by (simp_all add: loop_post_def Let_def a f fits)
  have k: "EW + TL + (if ?all then length Buffer - TL else free_slots s - TL)
             = EW + (if ?all then length Buffer else free_slots s)"
    using assms(4,5) by simp
  have q: "take TL Buffer @ take (if ?all then length Buffer - TL else free_slots s - TL) (drop TL Buffer)
             = take (if ?all then length Buffer else free_slots s) Buffer"
    using t1 t2 by (simp del: take_all)
  have "queued ?s' = queued s @ take (if ?all then length Buffer else free_slots s) Buffer"
    using p(5) q by simp
  then show ?thesis
    unfolding loop_post_def Let_def using p(1,3,4,6,7,8,9) p(2)[unfolded k] pos
    by simp
qed

lemma free_low: "wf s \<Longrightarrow> In s < Out s \<Longrightarrow> free_slots s = Out s - In s - 1"
  by (auto simp: free_slots_def GetNumberOfReadyEvents_def wf_def Last_def First_def)

lemma free_high: "wf s \<Longrightarrow> Out s \<le> In s \<Longrightarrow> free_slots s = Last s - 1 - In s + Out s"
  by (auto simp: free_slots_def GetNumberOfReadyEvents_def wf_def Last_def First_def)

lemma wrapIn_unfold: "(if In s = Last s then s\<lparr>In := First s\<rparr> else s) = wrapIn s"
  by (simp add: wrapIn_def)

text \<open>After a successful growth the whole rest of the request goes in with one copy.\<close>

lemma grown_takes_all:
  assumes "wf s" and "length Buffer \<le> Length"
    and "sizeof_INPUT_RECORD * (InputBufferSize s + Length + INPUT_BUFFER_SIZE_INCREMENT env + 1) < 2 ^ 32"
  shows "\<exists>s3. OutPath env (grown env s (InputBufferSize s + Length + INPUT_BUFFER_SIZE_INCREMENT env))
                  Length (length Buffer)
               = Inr (length Buffer, grown env s (InputBufferSize s + Length + INPUT_BUFFER_SIZE_INCREMENT env))
          \<and> copy_in (grown env s (InputBufferSize s + Length + INPUT_BUFFER_SIZE_INCREMENT env))
                Buffer (length Buffer) = Some s3
          \<and> appended (grown env s (InputBufferSize s + Length + INPUT_BUFFER_SIZE_INCREMENT env))
                Buffer (wrapIn s3)"
proof -
  let ?Size = "InputBufferSize s + Length + INPUT_BUFFER_SIZE_INCREMENT env"
  let ?g = "grown env s ?Size"
  have le: "InputBufferSize s \<le> ?Size" "1 \<le> ?Size" using assms(1) by (simp_all add: wf_def)
  note g = grown_props[OF assms(1) le assms(3), of env]
  have c: "GetNumberOfReadyEvents s \<le> InputBufferSize s" by (rule count_le_cap[OF assms(1)])
  have room: "Last ?g - In ?g > length Buffer"
    using c assms(2) by (simp add: Last_def g)
  then have o: "OutPath env ?g Length (length Buffer) = Inr (length Buffer, ?g)"
    by (simp add: OutPath_def)
  have "\<exists>s3. copy_in ?g Buffer (length Buffer) = Some s3
          \<and> appended ?g (take (length Buffer) Buffer) (wrapIn s3)"
    using room by (intro copy_in_high[OF g(1)]) (auto simp: g)
  with o show ?thesis by simp
qed

text \<open>
  The copy loop returns on every well-formed buffer, and what it returns is what
  \<open>loop_post\<close> describes. By induction on the number of records still to be written.
\<close>

lemma WriteLoop_returns:
  assumes "wf s" and "EW + length Buffer = Length" and "BLIB = length Buffer"
    and "InputBufferSize s + Length + INPUT_BUFFER_SIZE_INCREMENT env + 1 < 2 ^ 32"
    and "can_grow env (InputBufferSize s + Length + INPUT_BUFFER_SIZE_INCREMENT env) \<Longrightarrow>
         sizeof_INPUT_RECORD * (InputBufferSize s + Length + INPUT_BUFFER_SIZE_INCREMENT env + 1) < 2 ^ 32"
  shows "\<exists>r. WriteLoop env s Buffer Length EW BLIB SW = Some r
             \<and> loop_post env s Buffer Length EW SW r"
  using assms
proof (induction "length Buffer" arbitrary: s Buffer EW SW BLIB rule: less_induct)
  case less
  let ?Size = "InputBufferSize s + Length + INPUT_BUFFER_SIZE_INCREMENT env"
  let ?n = "length Buffer"
  note wf = less.prems(1) and tot = less.prems(2) and bl = less.prems(3) and h1 = less.prems(4)
    and h3 = less.prems(5)
  have u: "ULONG ?Size = ?Size"
    using h1 by (intro ULONG_id) simp
  have nle: "?n \<le> Length" using tot by simp
  show ?case
  proof (cases "Buffer = []")
    case True
    then have "WriteLoop env s Buffer Length EW BLIB SW = Some (STATUS_SUCCESS, EW, SW, s)"
      using tot by (intro WriteLoop_done) simp
    then show ?thesis using True loop_post_done[OF wf] by simp
  next
    case False
    then have pos: "0 < ?n" by simp
    have lt: "EW < Length" using pos tot by linarith
    have d: "In s < Out s \<or> Out s \<le> In s" by linarith
    consider (A1) "In s < Out s" "?n \<le> Out s - In s - 1"
      | (A2) "In s < Out s" "\<not> ?n \<le> Out s - In s - 1" "can_grow env ?Size"
      | (A3) "In s < Out s" "\<not> ?n \<le> Out s - In s - 1" "\<not> can_grow env ?Size"
      | (B1) "Out s \<le> In s" "Last s - In s > ?n"
      | (B2) "Out s \<le> In s" "\<not> Last s - In s > ?n" "First s = Out s \<and> In s = Last s - 1"
             "can_grow env ?Size"
      | (B3) "Out s \<le> In s" "\<not> Last s - In s > ?n" "First s = Out s \<and> In s = Last s - 1"
             "\<not> can_grow env ?Size"
      | (B4) "Out s \<le> In s" "\<not> Last s - In s > ?n" "\<not> (First s = Out s \<and> In s = Last s - 1)"
      using d by blast
    then show ?thesis
    proof cases
      case A1
      obtain s2 where c: "copy_in s Buffer ?n = Some s2" "appended s (take ?n Buffer) s2"
        using copy_in_low[OF wf A1(1) order_refl A1(2)] by blast
      have "WriteLoop env s Buffer Length EW BLIB SW
              = WriteLoop env s2 (drop ?n Buffer) Length (EW + ?n) (?n - ?n) SW"
        using lt A1 c(1) bl by (subst WriteLoop.simps) simp
      also have "\<dots> = Some (STATUS_SUCCESS, EW + ?n, SW, s2)"
        using tot by (intro WriteLoop_done) simp
      finally have w: "WriteLoop env s Buffer Length EW BLIB SW
              = Some (STATUS_SUCCESS, EW + ?n, SW, s2)" .
      have "loop_post env s Buffer Length EW SW (STATUS_SUCCESS, EW + ?n, SW \<or> Out s = In s, s2)"
        using c(2) A1(2) pos by (intro loop_post_all) (simp_all add: free_low[OF wf A1(1)])
      then show ?thesis using w A1(1) by simp
    next
      case A2
      note bound = h3[OF A2(3)]
      have ne: "Out s \<noteq> In s" using A2(1) by simp
      have le: "InputBufferSize s \<le> ?Size" by simp
      have g: "SetInputBufferSize env s ?Size = (STATUS_SUCCESS, grown env s ?Size)"
        by (rule SetInputBufferSize_ok[OF wf ne le A2(3) bound])
      obtain s3 where c: "OutPath env (grown env s ?Size) Length ?n = Inr (?n, grown env s ?Size)"
        "copy_in (grown env s ?Size) Buffer ?n = Some s3"
        "appended (grown env s ?Size) Buffer (wrapIn s3)"
        using grown_takes_all[OF wf nle bound] by blast
      have "WriteLoop env s Buffer Length EW BLIB SW
              = WriteLoop env (wrapIn s3) (drop ?n Buffer) Length (EW + ?n) (?n - ?n) SW"
        using lt A2(1,2) bl
        by (subst WriteLoop.simps) (simp add: u g c(1,2) NT_SUCCESS_def wrapIn_unfold)
      also have "\<dots> = Some (STATUS_SUCCESS, EW + ?n, SW, wrapIn s3)"
        using tot by (intro WriteLoop_done) simp
      finally have w: "WriteLoop env s Buffer Length EW BLIB SW
              = Some (STATUS_SUCCESS, EW + ?n, SW, wrapIn s3)" .
      have "loop_post env s Buffer Length EW SW (STATUS_SUCCESS, EW + ?n, SW, wrapIn s3)"
        using A2(2) by (intro loop_post_grown[OF c(3) wf bound _ ne A2(3)])
          (simp add: free_low[OF wf A2(1)])
      then show ?thesis using w by simp
    next
      case A3
      have f: "SetInputBufferSize env s ?Size = (grow_status env ?Size, s)"
        "\<not> NT_SUCCESS (grow_status env ?Size)"
        using SetInputBufferSize_fail[OF A3(3) h1] by simp_all
      have fr: "free_slots s = Out s - In s - 1" by (rule free_low[OF wf A3(1)])
      show ?thesis
      proof (cases "Out s - In s - 1 = 0")
        case True
        have w: "WriteLoop env s Buffer Length EW BLIB SW = Some (grow_status env ?Size, EW, SW, s)"
          using lt A3(1,2) bl True by (subst WriteLoop.simps) (simp add: u f)
        have "loop_post env s Buffer Length EW SW (grow_status env ?Size, EW, SW, s)"
          using A3(1) pos True by (intro loop_post_stuck[OF wf _ _ _ A3(3)]) (simp_all add: fr)
        then show ?thesis using w by simp
      next
        case F: False
        let ?TL = "Out s - In s - 1"
        have tl: "?TL \<le> ?n" "1 \<le> ?TL" using A3(2) F by simp_all
        obtain s2 where c: "copy_in s Buffer ?TL = Some s2" "appended s (take ?TL Buffer) s2"
          using copy_in_low[OF wf A3(1) tl(1) order_refl] by blast
        have w: "WriteLoop env s Buffer Length EW BLIB SW
              = WriteLoop env s2 (drop ?TL Buffer) Length (EW + ?TL) (?n - ?TL) SW"
          using lt A3(1,2) bl F c(1) by (subst WriteLoop.simps) (simp add: u f Let_def)
        have a: "wf s2" "InputBufferSize s2 = InputBufferSize s"
          using c(2) by (simp_all add: appended_def)
        have "\<exists>r. WriteLoop env s2 (drop ?TL Buffer) Length (EW + ?TL) (?n - ?TL) SW = Some r
               \<and> loop_post env s2 (drop ?TL Buffer) Length (EW + ?TL) SW r"
          using tl tot pos h1 h3 by (intro less.hyps a(1)) (simp_all add: a(2))
        then obtain r where r: "WriteLoop env s2 (drop ?TL Buffer) Length (EW + ?TL) (?n - ?TL) SW = Some r"
          "loop_post env s2 (drop ?TL Buffer) Length (EW + ?TL) SW r" by blast
        have "loop_post env s Buffer Length EW SW r"
          using r(2) A3(1) by (intro loop_post_step[OF c(2) wf tl(2) tl(1)]) (simp_all add: fr)
        then show ?thesis using w r(1) by simp
      qed
    next
      case B1
      have o: "OutPath env s Length ?n = Inr (?n, s)" using B1(2) by (simp add: OutPath_def)
      have b1: "?n \<le> Last s - In s - (if First s = Out s then 1 else 0)"
        using B1(2) by auto
      obtain s3 where c: "copy_in s Buffer ?n = Some s3" "appended s (take ?n Buffer) (wrapIn s3)"
        using copy_in_high[OF wf B1(1) order_refl b1] by blast
      have "WriteLoop env s Buffer Length EW BLIB SW
              = WriteLoop env (wrapIn s3) (drop ?n Buffer) Length (EW + ?n) (?n - ?n) (SW \<or> Out s = In s)"
        using lt B1(1) bl
        by (subst WriteLoop.simps) (simp add: o c(1) wrapIn_unfold)
      also have "\<dots> = Some (STATUS_SUCCESS, EW + ?n, SW \<or> Out s = In s, wrapIn s3)"
        using tot by (intro WriteLoop_done) simp
      finally have w: "WriteLoop env s Buffer Length EW BLIB SW
              = Some (STATUS_SUCCESS, EW + ?n, SW \<or> Out s = In s, wrapIn s3)" .
      have "loop_post env s Buffer Length EW SW (STATUS_SUCCESS, EW + ?n, SW \<or> Out s = In s, wrapIn s3)"
        using c(2) B1(2) pos by (intro loop_post_all) (simp_all add: free_high[OF wf B1(1)])
      then show ?thesis using w by simp
    next
      case B2
      note bound = h3[OF B2(4)]
      have ne: "Out s \<noteq> In s" using B2(3) wf by (auto simp: wf_def Last_def First_def)
      have le: "InputBufferSize s \<le> ?Size" by simp
      have g: "SetInputBufferSize env s ?Size = (STATUS_SUCCESS, grown env s ?Size)"
        by (rule SetInputBufferSize_ok[OF wf ne le B2(4) bound])
      have o: "OutPath env s Length ?n = Inr (?n, grown env s ?Size)"
        using B2(2,3) by (simp add: OutPath_def u g NT_SUCCESS_def)
      obtain s3 where c: "copy_in (grown env s ?Size) Buffer ?n = Some s3"
        "appended (grown env s ?Size) Buffer (wrapIn s3)"
        using grown_takes_all[OF wf nle bound] by blast
      have "WriteLoop env s Buffer Length EW BLIB SW
              = WriteLoop env (wrapIn s3) (drop ?n Buffer) Length (EW + ?n) (?n - ?n) (SW \<or> Out s = In s)"
        using lt B2(1) bl
        by (subst WriteLoop.simps) (simp add: o c(1) wrapIn_unfold)
      also have "\<dots> = Some (STATUS_SUCCESS, EW + ?n, SW \<or> Out s = In s, wrapIn s3)"
        using tot by (intro WriteLoop_done) simp
      finally have w: "WriteLoop env s Buffer Length EW BLIB SW
              = Some (STATUS_SUCCESS, EW + ?n, SW, wrapIn s3)" using ne by simp
      have "loop_post env s Buffer Length EW SW (STATUS_SUCCESS, EW + ?n, SW, wrapIn s3)"
        using B2(2,3) pos by (intro loop_post_grown[OF c(2) wf bound _ ne B2(4)])
          (simp add: free_high[OF wf B2(1)] First_def)
      then show ?thesis using w by simp
    next
      case B3
      have ne: "Out s \<noteq> In s" using B3(3) wf by (auto simp: wf_def Last_def First_def)
      have f: "SetInputBufferSize env s ?Size = (grow_status env ?Size, s)"
        "\<not> NT_SUCCESS (grow_status env ?Size)"
        using SetInputBufferSize_fail[OF B3(4) h1] by simp_all
      have o: "OutPath env s Length ?n = Inl (grow_status env ?Size)"
        using B3(2,3) by (simp add: OutPath_def u f)
      have w: "WriteLoop env s Buffer Length EW BLIB SW = Some (grow_status env ?Size, EW, SW, s)"
        using lt B3(1) bl ne by (subst WriteLoop.simps) (simp add: o)
      have "loop_post env s Buffer Length EW SW (grow_status env ?Size, EW, SW, s)"
        using B3(3) pos ne by (intro loop_post_stuck[OF wf _ _ _ B3(4)])
          (simp_all add: free_high[OF wf B3(1)] First_def)
      then show ?thesis using w by simp
    next
      case B4
      define TL where "TL = Last s - In s - (if First s = Out s then 1 else 0)"
      have o: "OutPath env s Length ?n = Inr (TL, s)"
        using B4(2,3) by (auto simp: OutPath_def TL_def)
      have inl: "In s < Last s" using wf by (simp add: wf_def Last_def)
      have tl: "TL \<le> ?n" "1 \<le> TL" using B4(2,3) inl by (auto simp: TL_def)
      have tr: "TL \<le> Last s - In s - (if First s = Out s then 1 else 0)" by (simp add: TL_def)
      have tf: "TL \<le> free_slots s"
        using inl by (auto simp: free_high[OF wf B4(1)] First_def TL_def)
      obtain s3 where c: "copy_in s Buffer TL = Some s3" "appended s (take TL Buffer) (wrapIn s3)"
        using copy_in_high[OF wf B4(1) tl(1) tr] by blast
      have w: "WriteLoop env s Buffer Length EW BLIB SW
              = WriteLoop env (wrapIn s3) (drop TL Buffer) Length (EW + TL) (?n - TL) (SW \<or> Out s = In s)"
        using lt B4(1) bl
        by (subst WriteLoop.simps) (simp add: o c(1) wrapIn_unfold)
      have a: "wf (wrapIn s3)" "InputBufferSize (wrapIn s3) = InputBufferSize s"
        using c(2) by (simp_all add: appended_def)
      have "\<exists>r. WriteLoop env (wrapIn s3) (drop TL Buffer) Length (EW + TL) (?n - TL) (SW \<or> Out s = In s) = Some r
               \<and> loop_post env (wrapIn s3) (drop TL Buffer) Length (EW + TL) (SW \<or> Out s = In s) r"
        using tl tot pos h1 h3 by (intro less.hyps a(1)) (simp_all add: a(2))
      then obtain r where r: "WriteLoop env (wrapIn s3) (drop TL Buffer) Length (EW + TL) (?n - TL) (SW \<or> Out s = In s) = Some r"
          "loop_post env (wrapIn s3) (drop TL Buffer) Length (EW + TL) (SW \<or> Out s = In s) r" by blast
      have "loop_post env s Buffer Length EW SW r"
        by (rule loop_post_step[OF c(2) wf tl(2) tl(1) tf r(2)])
      then show ?thesis using w r(1) by simp
    qed
  qed
qed

lemma WriteLoop_total:
  assumes "wf s" and "EW + length Buffer = Length" and "BLIB = length Buffer"
    and "sizeof_INPUT_RECORD * (InputBufferSize s + Length + INPUT_BUFFER_SIZE_INCREMENT env + 1) < 2 ^ 32"
  shows "\<exists>r. WriteLoop env s Buffer Length EW BLIB SW = Some r
             \<and> loop_post env s Buffer Length EW SW r"
proof -
  have "InputBufferSize s + Length + INPUT_BUFFER_SIZE_INCREMENT env + 1 < 2 ^ 32"
    using assms(4) by (simp add: sizeof_INPUT_RECORD_def)
  then show ?thesis by (rule WriteLoop_returns[OF assms(1,2,3) _ assms(4)])
qed

lemma coalesce_iff:
  "(coalesce env s r \<noteq> None) = coalescing_eligible env (InputBuffer s ! LastInputEvent s) r"
  by (cases r; cases "InputBuffer s ! LastInputEvent s")
     (auto simp: coalesce_def)

lemma coalesce_Some:
  "coalesce env s r = Some s' \<Longrightarrow>
     \<exists>x. s' = s\<lparr>InputBuffer := (InputBuffer s)[LastInputEvent s := x]\<rparr>"
  by (cases r; cases "InputBuffer s ! LastInputEvent s")
     (auto simp: coalesce_def split: if_splits)

lemma wf_update_store:
  "wf s \<Longrightarrow> wf (s\<lparr>InputBuffer := (InputBuffer s)[i := x]\<rparr>)"
  by (simp add: wf_def)

lemma WriteBuffer_loop:
  "\<not> (length B = 1 \<and> Out s \<noteq> In s \<and> coalescing_eligible env (last (queued s)) (hd B)) \<Longrightarrow> wf s \<Longrightarrow>
   WriteBuffer env s B = WriteLoop env s B (length B) 0 (length B) False"
  using coalesce_iff[of env s "hd B"] last_queued[of s]
  by (auto simp: WriteBuffer_def split: option.splits)

lemma ReadBuffer_status: "fst (ReadBuffer env s L P S U) = STATUS_SUCCESS"
  by (simp add: ReadBuffer_def Let_def)

lemma SetInputBufferSize_status:
  assumes "Size + 1 < 2 ^ 32"
  shows "fst (SetInputBufferSize env s Size)
           = (if can_grow env Size then STATUS_SUCCESS else grow_status env Size)"
proof (cases "can_grow env Size")
  case False
  then show ?thesis using SetInputBufferSize_fail(1)[OF False assms, of s] by simp
next
  case True
  have u: "ULONG (Size + 1) = Size + 1" using assms by (rule ULONG_id)
  obtain st recs n d s1 where r: "ReadBuffer env s Size True False True = (st, recs, n, d, s1)"
    by (metis prod_cases5)
  have "st = STATUS_SUCCESS" using ReadBuffer_status[of env s Size True False True] r by simp
  then show ?thesis
    using True unfolding SetInputBufferSize_def SizeTMult_def u can_grow_def
    by (simp add: r NT_SUCCESS_def)
qed

text \<open>
  C7. When a write needs more room than the buffer has and \<^verbatim>\<open>SetInputBufferSize\<close>
  fails, \<^verbatim>\<open>WriteBuffer\<close> returns the status of the failed growth,
  \<^verbatim>\<open>STATUS_INTEGER_OVERFLOW\<close> when the size computation overflows and
  \<^verbatim>\<open>STATUS_NO_MEMORY\<close> when the allocation fails, and reports as written exactly
  the records that fitted, possibly none; the queue is the old queue, unchanged and in
  order, followed by those records, and the capacity is unchanged. The new size and the
  byte length of the request are taken to fit the \<^verbatim>\<open>ULONG\<close> the source keeps them in.
\<close>

theorem WriteBuffer_growth_fails:
  assumes "wf s"
    and "InputBufferSize s + length Buffer + INPUT_BUFFER_SIZE_INCREMENT env + 1 < 2 ^ 32"
    and "sizeof_INPUT_RECORD * length Buffer < 2 ^ 32"
    and "\<not> (length Buffer = 1 \<and> Out s \<noteq> In s
            \<and> coalescing_eligible env (last (queued s)) (hd Buffer))"
    and "free_slots s < length Buffer"
    and "fst (SetInputBufferSize env s
               (InputBufferSize s + length Buffer + INPUT_BUFFER_SIZE_INCREMENT env)) = Status"
    and "\<not> NT_SUCCESS Status"
  shows "\<exists>SetWaitEvent s'.
           WriteBuffer env s Buffer = Some (Status, free_slots s, SetWaitEvent, s')
           \<and> Status = (if SizeTMult env sizeof_INPUT_RECORD
                            (InputBufferSize s + length Buffer + INPUT_BUFFER_SIZE_INCREMENT env + 1)
                          = None
                        then STATUS_INTEGER_OVERFLOW else STATUS_NO_MEMORY)
           \<and> queued s' = queued s @ take (free_slots s) Buffer
           \<and> GetNumberOfReadyEvents s' = InputBufferSize s
           \<and> InputBufferSize s' = InputBufferSize s \<and> wf s'"
proof -
  let ?Size = "InputBufferSize s + length Buffer + INPUT_BUFFER_SIZE_INCREMENT env"
  have st: "Status = (if can_grow env ?Size then STATUS_SUCCESS else grow_status env ?Size)"
    using SetInputBufferSize_status[OF assms(2), of env s] assms(6) by simp
  have ng: "\<not> can_grow env ?Size" using st assms(7) by (auto simp: NT_SUCCESS_def)
  have gs: "Status = grow_status env ?Size" using st ng by simp
  obtain r where r: "WriteLoop env s Buffer (length Buffer) 0 (length Buffer) False = Some r"
    "loop_post env s Buffer (length Buffer) 0 False r"
    using WriteLoop_returns[OF assms(1) _ _ assms(2), of 0 Buffer "length Buffer" False] ng
    by auto
  obtain st' n sw s' where t: "r = (st', n, sw, s')" by (cases r) auto
  have w: "WriteBuffer env s Buffer = Some (st', n, sw, s')"
    using WriteBuffer_loop[OF assms(4,1)] r(1) t by simp
  have p: "st' = grow_status env ?Size" "n = free_slots s" "wf s'"
    "queued s' = queued s @ take (free_slots s) Buffer" "InputBufferSize s' = InputBufferSize s"
    using r(2) assms(5) ng unfolding t loop_post_def Let_def by simp_all
  have c: "GetNumberOfReadyEvents s' = InputBufferSize s"
    using queued_length[OF p(3)] queued_length[OF assms(1)] p(4) assms(5) count_le_cap[OF assms(1)]
    by (simp add: free_slots_def)
  have e: "grow_status env ?Size
             = (if SizeTMult env sizeof_INPUT_RECORD (?Size + 1) = None
                then STATUS_INTEGER_OVERFLOW else STATUS_NO_MEMORY)"
    by (simp add: grow_status_def SizeTMult_def)
  show ?thesis using w p c gs e by simp
qed

theorem WriteBuffer_growth_fails_witness:
  "(\<exists>SetWaitEvent s'.
     WriteBuffer full_heap_platform (buffer_of [KEY_EVENT (key_down 65 1), OTHER_EVENT 0, OTHER_EVENT 0] 1 0)
       [KEY_EVENT (key_down 66 1), KEY_EVENT (key_down 67 1), KEY_EVENT (key_down 68 1)]
     = Some (STATUS_NO_MEMORY, 1, SetWaitEvent, s')
     \<and> queued s' = [KEY_EVENT (key_down 65 1), KEY_EVENT (key_down 66 1)]
     \<and> GetNumberOfReadyEvents s' = 2 \<and> InputBufferSize s' = 2)
   \<and> (\<exists>SetWaitEvent s'.
     WriteBuffer narrow_platform (buffer_of (replicate 214748364 (OTHER_EVENT 0)) 214748363 0)
       [KEY_EVENT (key_down 66 1)]
     = Some (STATUS_INTEGER_OVERFLOW, 0, SetWaitEvent, s')
     \<and> queued s' = replicate 214748363 (OTHER_EVENT 0)
     \<and> GetNumberOfReadyEvents s' = 214748363 \<and> InputBufferSize s' = 214748363)"
proof -
  let ?s = "buffer_of [KEY_EVENT (key_down 65 1), OTHER_EVENT 0, OTHER_EVENT 0] 1 0"
  let ?B = "[KEY_EVENT (key_down 66 1), KEY_EVENT (key_down 67 1), KEY_EVENT (key_down 68 1)]"
  have w: "wf ?s" by (simp add: wf_buffer_of)
  have b: "InputBufferSize ?s + length ?B + INPUT_BUFFER_SIZE_INCREMENT full_heap_platform + 1 < 2 ^ 32"
    "sizeof_INPUT_RECORD * length ?B < 2 ^ 32"
    by (simp_all add: sizeof_INPUT_RECORD_def buffer_of_def full_heap_platform_def plain_platform_def)
  have nc: "\<not> (length ?B = 1 \<and> Out ?s \<noteq> In ?s
            \<and> coalescing_eligible full_heap_platform (last (queued ?s)) (hd ?B))"
    by simp
  have f: "free_slots ?s = 1"
    by (simp add: free_slots_def GetNumberOfReadyEvents_def buffer_of_def)
  have fl: "free_slots ?s < length ?B"
    by (simp add: free_slots_def GetNumberOfReadyEvents_def buffer_of_def)
  have g: "fst (SetInputBufferSize full_heap_platform ?s
               (InputBufferSize ?s + length ?B + INPUT_BUFFER_SIZE_INCREMENT full_heap_platform))
             = STATUS_NO_MEMORY"
    by (simp add: SetInputBufferSize_def SizeTMult_def ULONG_def full_heap_platform_def
        plain_platform_def sizeof_INPUT_RECORD_def buffer_of_def)
  have n: "\<not> NT_SUCCESS STATUS_NO_MEMORY" "\<not> NT_SUCCESS STATUS_INTEGER_OVERFLOW"
    by (simp_all add: NT_SUCCESS_def)
  have q: "queued ?s = [KEY_EVENT (key_down 65 1)]" "InputBufferSize ?s = 2"
    by (simp_all add: queued_def buffer_of_def)
  have p1: "\<exists>SetWaitEvent s'.
     WriteBuffer full_heap_platform ?s ?B = Some (STATUS_NO_MEMORY, 1, SetWaitEvent, s')
     \<and> queued s' = [KEY_EVENT (key_down 65 1), KEY_EVENT (key_down 66 1)]
     \<and> GetNumberOfReadyEvents s' = 2 \<and> InputBufferSize s' = 2"
    using WriteBuffer_growth_fails[OF w b nc fl g n(1)] unfolding f q by auto
  let ?t = "buffer_of (replicate 214748364 (OTHER_EVENT 0)) 214748363 0"
  let ?C = "[KEY_EVENT (key_down 66 1)]"
  have w2: "wf ?t" by (simp add: wf_def buffer_of_def sizeof_INPUT_RECORD_def)
  have b2: "InputBufferSize ?t + length ?C + INPUT_BUFFER_SIZE_INCREMENT narrow_platform + 1 < 2 ^ 32"
    "sizeof_INPUT_RECORD * length ?C < 2 ^ 32"
    by (simp_all add: sizeof_INPUT_RECORD_def buffer_of_def narrow_platform_def plain_platform_def)
  have q2: "queued ?t = replicate 214748363 (OTHER_EVENT 0)" "InputBufferSize ?t = 214748363"
    by (simp_all add: queued_def buffer_of_def)
  have nc2: "\<not> (length ?C = 1 \<and> Out ?t \<noteq> In ?t
            \<and> coalescing_eligible narrow_platform (last (queued ?t)) (hd ?C))"
    unfolding q2 by simp
  have f2: "free_slots ?t = 0"
    by (simp add: free_slots_def GetNumberOfReadyEvents_def buffer_of_def)
  have fl2: "free_slots ?t < length ?C" unfolding f2 by simp
  have g2: "fst (SetInputBufferSize narrow_platform ?t
               (InputBufferSize ?t + length ?C + INPUT_BUFFER_SIZE_INCREMENT narrow_platform))
             = STATUS_INTEGER_OVERFLOW"
    by (simp add: SetInputBufferSize_def SizeTMult_def ULONG_def narrow_platform_def
        plain_platform_def sizeof_INPUT_RECORD_def buffer_of_def)
  have p2: "\<exists>SetWaitEvent s'.
     WriteBuffer narrow_platform ?t ?C = Some (STATUS_INTEGER_OVERFLOW, 0, SetWaitEvent, s')
     \<and> queued s' = replicate 214748363 (OTHER_EVENT 0)
     \<and> GetNumberOfReadyEvents s' = 214748363 \<and> InputBufferSize s' = 214748363"
    using WriteBuffer_growth_fails[OF w2 b2 nc2 fl2 g2 n(2)] unfolding f2 q2 by auto
  from p1 p2 show ?thesis by blast
qed

lemma WriteBuffer_appends:
  assumes "wf s"
    and "sizeof_INPUT_RECORD *
           (InputBufferSize s + length Buffer + INPUT_BUFFER_SIZE_INCREMENT env + 1) < 2 ^ 32"
    and "\<not> (length Buffer = 1 \<and> Out s \<noteq> In s
            \<and> coalescing_eligible env (last (queued s)) (hd Buffer))"
    and "length Buffer \<le> free_slots s
         \<or> can_grow env (InputBufferSize s + length Buffer + INPUT_BUFFER_SIZE_INCREMENT env)"
  shows "\<exists>s'. WriteBuffer env s Buffer =
                  Some (STATUS_SUCCESS, length Buffer, 0 < length Buffer \<and> Out s = In s, s')
           \<and> wf s' \<and> queued s' = queued s @ Buffer
           \<and> InputWaitEvent s' = InputWaitEvent s \<and> InputMode s' = InputMode s
           \<and> Flags s' = Flags s
           \<and> InputBufferSize s' \<le> InputBufferSize s + length Buffer + INPUT_BUFFER_SIZE_INCREMENT env"
proof -
  obtain r where r: "WriteLoop env s Buffer (length Buffer) 0 (length Buffer) False = Some r"
    "loop_post env s Buffer (length Buffer) 0 False r"
    using WriteLoop_total[OF assms(1) _ _ assms(2), of 0 Buffer "length Buffer" False] by auto
  obtain st n sw s' where t: "r = (st, n, sw, s')" by (cases r) auto
  have w: "WriteBuffer env s Buffer = Some (st, n, sw, s')"
    using WriteBuffer_loop[OF assms(3,1)] r(1) t by simp
  have p: "st = STATUS_SUCCESS" "n = length Buffer" "sw = (0 < length Buffer \<and> Out s = In s)"
    "wf s'" "queued s' = queued s @ Buffer"
    "InputWaitEvent s' = InputWaitEvent s" "InputMode s' = InputMode s" "Flags s' = Flags s"
    "InputBufferSize s' \<le> InputBufferSize s + length Buffer + INPUT_BUFFER_SIZE_INCREMENT env"
    using r(2) assms(4) unfolding t loop_post_def Let_def by auto
  show ?thesis using w p by simp
qed



lemma queued_signal [simp]: "queued (s\<lparr>InputWaitEvent := b\<rparr>) = queued s"
  by (simp add: queued_def)

lemma wf_signal [simp]: "wf (s\<lparr>InputWaitEvent := b\<rparr>) = wf s"
  by (simp add: wf_def)






text \<open>
  C5. On a non-empty buffer, writing one key-down record whose character is not full
  width is merged into the last queued record exactly when (a) the new record has the
  IME conversion flag and the last record is a key-down with the same character and
  control-key state, or (b) the last record is a key-down with the same scan code,
  character and control-key state. On a match the repeat counts are summed in the last
  record, one record is reported written with success, and the cursors, the capacity
  and the count of ready events stay as they were. Without a match the write goes
  through the copy loop: no queued record changes, and the new record is appended
  when the write succeeds.
\<close>

theorem WriteBuffer_key_repeat:
  assumes "wf s" and "Out s \<noteq> In s" and "bKeyDown k"
    and "\<not> IsCharFullWidth env (UnicodeChar k)"
    and "sizeof_INPUT_RECORD *
           (InputBufferSize s + 1 + INPUT_BUFFER_SIZE_INCREMENT env + 1) < 2 ^ 32"
  shows "((\<exists>lk. last (queued s) = KEY_EVENT lk
              \<and> ((dwControlKeyState k AND NLS_IME_CONVERSION \<noteq> 0 \<and> bKeyDown lk
                   \<and> UnicodeChar lk = UnicodeChar k
                   \<and> dwControlKeyState lk = dwControlKeyState k)
                  \<or> (bKeyDown lk \<and> wVirtualScanCode lk = wVirtualScanCode k
                      \<and> UnicodeChar lk = UnicodeChar k
                      \<and> dwControlKeyState lk = dwControlKeyState k))) \<longrightarrow>
           (\<exists>lk s'. last (queued s) = KEY_EVENT lk
              \<and> WriteBuffer env s [KEY_EVENT k] = Some (STATUS_SUCCESS, 1, False, s')
              \<and> queued s' = butlast (queued s)
                    @ [KEY_EVENT (lk\<lparr>wRepeatCount := wRepeatCount lk + wRepeatCount k\<rparr>)]
              \<and> In s' = In s \<and> Out s' = Out s \<and> InputBufferSize s' = InputBufferSize s
              \<and> GetNumberOfReadyEvents s' = GetNumberOfReadyEvents s))
         \<and> (\<not> (\<exists>lk. last (queued s) = KEY_EVENT lk
              \<and> ((dwControlKeyState k AND NLS_IME_CONVERSION \<noteq> 0 \<and> bKeyDown lk
                   \<and> UnicodeChar lk = UnicodeChar k
                   \<and> dwControlKeyState lk = dwControlKeyState k)
                  \<or> (bKeyDown lk \<and> wVirtualScanCode lk = wVirtualScanCode k
                      \<and> UnicodeChar lk = UnicodeChar k
                      \<and> dwControlKeyState lk = dwControlKeyState k))) \<longrightarrow>
           (\<exists>Status n SetWaitEvent s'.
              WriteBuffer env s [KEY_EVENT k] = Some (Status, n, SetWaitEvent, s')
              \<and> queued s' = queued s @ take n [KEY_EVENT k]
              \<and> GetNumberOfReadyEvents s' = GetNumberOfReadyEvents s + n
              \<and> (Status = STATUS_SUCCESS \<longrightarrow> n = 1)))"
proof (intro conjI impI)
  assume "\<exists>lk. last (queued s) = KEY_EVENT lk
              \<and> ((dwControlKeyState k AND NLS_IME_CONVERSION \<noteq> 0 \<and> bKeyDown lk
                   \<and> UnicodeChar lk = UnicodeChar k
                   \<and> dwControlKeyState lk = dwControlKeyState k)
                  \<or> (bKeyDown lk \<and> wVirtualScanCode lk = wVirtualScanCode k
                      \<and> UnicodeChar lk = UnicodeChar k
                      \<and> dwControlKeyState lk = dwControlKeyState k))"
  then obtain lk where lk: "last (queued s) = KEY_EVENT lk" "bKeyDown lk"
    "UnicodeChar lk = UnicodeChar k" "dwControlKeyState lk = dwControlKeyState k"
    "dwControlKeyState k AND NLS_IME_CONVERSION \<noteq> 0 \<or> wVirtualScanCode lk = wVirtualScanCode k"
    by blast
  let ?s' = "s\<lparr>InputBuffer := (InputBuffer s)[LastInputEvent s :=
                    KEY_EVENT (lk\<lparr>wRepeatCount := wRepeatCount lk + wRepeatCount k\<rparr>)]\<rparr>"
  have l: "InputBuffer s ! LastInputEvent s = KEY_EVENT lk"
    using last_queued[OF assms(1,2)] lk(1) by simp
  have "coalesce env s (KEY_EVENT k) = Some ?s'"
    by (rule coalesce_key_match[OF l lk(2) assms(3,4) lk(3,4,5)])
  then have w: "WriteBuffer env s [KEY_EVENT k] = Some (STATUS_SUCCESS, 1, False, ?s')"
    using assms(2) by (simp add: WriteBuffer_def)
  have q: "queued ?s' = butlast (queued s)
                    @ [KEY_EVENT (lk\<lparr>wRepeatCount := wRepeatCount lk + wRepeatCount k\<rparr>)]"
    by (rule queued_update_last[OF assms(1,2)])
  show "\<exists>lk s'. last (queued s) = KEY_EVENT lk
              \<and> WriteBuffer env s [KEY_EVENT k] = Some (STATUS_SUCCESS, 1, False, s')
              \<and> queued s' = butlast (queued s)
                    @ [KEY_EVENT (lk\<lparr>wRepeatCount := wRepeatCount lk + wRepeatCount k\<rparr>)]
              \<and> In s' = In s \<and> Out s' = Out s \<and> InputBufferSize s' = InputBufferSize s
              \<and> GetNumberOfReadyEvents s' = GetNumberOfReadyEvents s"
    using lk(1) w q by (intro exI[of _ lk] exI[of _ ?s']) (simp add: count_update_store)
next
  assume nm: "\<not> (\<exists>lk. last (queued s) = KEY_EVENT lk
              \<and> ((dwControlKeyState k AND NLS_IME_CONVERSION \<noteq> 0 \<and> bKeyDown lk
                   \<and> UnicodeChar lk = UnicodeChar k
                   \<and> dwControlKeyState lk = dwControlKeyState k)
                  \<or> (bKeyDown lk \<and> wVirtualScanCode lk = wVirtualScanCode k
                      \<and> UnicodeChar lk = UnicodeChar k
                      \<and> dwControlKeyState lk = dwControlKeyState k)))"
  have ne: "\<not> coalescing_eligible env (last (queued s)) (KEY_EVENT k)"
    using nm by (cases "last (queued s)") auto
  then have nc: "\<not> (length [KEY_EVENT k] = 1 \<and> Out s \<noteq> In s
            \<and> coalescing_eligible env (last (queued s)) (hd [KEY_EVENT k]))" by simp
  have b: "sizeof_INPUT_RECORD *
     (InputBufferSize s + length [KEY_EVENT k] + INPUT_BUFFER_SIZE_INCREMENT env + 1) < 2 ^ 32"
    using assms(5) by simp
  obtain r where r: "WriteLoop env s [KEY_EVENT k] (length [KEY_EVENT k]) 0 (length [KEY_EVENT k]) False = Some r"
    "loop_post env s [KEY_EVENT k] (length [KEY_EVENT k]) 0 False r"
    using WriteLoop_total[OF assms(1) _ _ b, of 0 "[KEY_EVENT k]" "length [KEY_EVENT k]" False] by auto
  obtain st n sw s' where t: "r = (st, n, sw, s')" by (cases r) auto
  have w: "WriteBuffer env s [KEY_EVENT k] = Some (st, n, sw, s')"
    using WriteBuffer_loop[OF nc assms(1)] r(1) t by simp
  have p: "wf s'" "queued s' = queued s @ take n [KEY_EVENT k]" "st = STATUS_SUCCESS \<longrightarrow> n = 1"
    using r(2) unfolding t loop_post_def Let_def
    by (auto simp: grow_status_def split: if_splits)
  have c: "GetNumberOfReadyEvents s' = GetNumberOfReadyEvents s + n"
  proof -
    have "n \<le> 1" using r(2) unfolding t loop_post_def Let_def free_slots_def
      by (auto split: if_splits)
    then show ?thesis
      using queued_length[OF p(1)] queued_length[OF assms(1)] p(2)
      by (auto simp: min_def split: if_splits)
  qed
  show "\<exists>Status n SetWaitEvent s'.
              WriteBuffer env s [KEY_EVENT k] = Some (Status, n, SetWaitEvent, s')
              \<and> queued s' = queued s @ take n [KEY_EVENT k]
              \<and> GetNumberOfReadyEvents s' = GetNumberOfReadyEvents s + n
              \<and> (Status = STATUS_SUCCESS \<longrightarrow> n = 1)"
    using w p c by blast
qed

theorem WriteBuffer_key_repeat_witness:
  "(\<exists>lk s'. last (queued (buffer_of [KEY_EVENT (key_down 65 1), OTHER_EVENT 0, OTHER_EVENT 0] 1 0))
               = KEY_EVENT lk
      \<and> WriteBuffer plain_platform
           (buffer_of [KEY_EVENT (key_down 65 1), OTHER_EVENT 0, OTHER_EVENT 0] 1 0)
           [KEY_EVENT (key_down 65 2)] = Some (STATUS_SUCCESS, 1, False, s')
      \<and> queued s' = [KEY_EVENT (lk\<lparr>wRepeatCount := wRepeatCount lk + 2\<rparr>)]
      \<and> GetNumberOfReadyEvents s' = 1)
   \<and> (\<exists>Status n SetWaitEvent s'.
        WriteBuffer plain_platform
           (buffer_of [KEY_EVENT (key_down 65 1), OTHER_EVENT 0, OTHER_EVENT 0] 1 0)
           [KEY_EVENT (key_down 66 1)] = Some (Status, n, SetWaitEvent, s')
        \<and> queued s' = KEY_EVENT (key_down 65 1) # take n [KEY_EVENT (key_down 66 1)]
        \<and> GetNumberOfReadyEvents s' = 1 + n)"
proof -
  let ?s = "buffer_of [KEY_EVENT (key_down 65 1), OTHER_EVENT 0, OTHER_EVENT 0] 1 0"
  have w: "wf ?s" by (simp add: wf_buffer_of)
  have ne: "Out ?s \<noteq> In ?s" by (simp add: buffer_of_def)
  have k: "bKeyDown (key_down 65 2)" "bKeyDown (key_down 66 1)"
    "\<not> IsCharFullWidth plain_platform (UnicodeChar (key_down 65 2))"
    "\<not> IsCharFullWidth plain_platform (UnicodeChar (key_down 66 1))"
    by (simp_all add: key_down_def plain_platform_def)
  have b: "sizeof_INPUT_RECORD *
           (InputBufferSize ?s + 1 + INPUT_BUFFER_SIZE_INCREMENT plain_platform + 1) < 2 ^ 32"
    by (simp add: sizeof_INPUT_RECORD_def buffer_of_def plain_platform_def)
  have q: "queued ?s = [KEY_EVENT (key_down 65 1)]"
    by (simp add: queued_def buffer_of_def)
  have c: "GetNumberOfReadyEvents ?s = 1"
    by (simp add: GetNumberOfReadyEvents_def buffer_of_def)
  have r: "wRepeatCount (key_down 65 2) = 2" by (simp add: key_down_def)
  have m: "\<exists>lk. last (queued ?s) = KEY_EVENT lk
              \<and> ((dwControlKeyState (key_down 65 2) AND NLS_IME_CONVERSION \<noteq> 0 \<and> bKeyDown lk
                   \<and> UnicodeChar lk = UnicodeChar (key_down 65 2)
                   \<and> dwControlKeyState lk = dwControlKeyState (key_down 65 2))
                  \<or> (bKeyDown lk \<and> wVirtualScanCode lk = wVirtualScanCode (key_down 65 2)
                      \<and> UnicodeChar lk = UnicodeChar (key_down 65 2)
                      \<and> dwControlKeyState lk = dwControlKeyState (key_down 65 2)))"
    unfolding q by (simp add: key_down_def)
  have nm: "\<not> (\<exists>lk. last (queued ?s) = KEY_EVENT lk
              \<and> ((dwControlKeyState (key_down 66 1) AND NLS_IME_CONVERSION \<noteq> 0 \<and> bKeyDown lk
                   \<and> UnicodeChar lk = UnicodeChar (key_down 66 1)
                   \<and> dwControlKeyState lk = dwControlKeyState (key_down 66 1))
                  \<or> (bKeyDown lk \<and> wVirtualScanCode lk = wVirtualScanCode (key_down 66 1)
                      \<and> UnicodeChar lk = UnicodeChar (key_down 66 1)
                      \<and> dwControlKeyState lk = dwControlKeyState (key_down 66 1))))"
    unfolding q by (simp add: key_down_def)
  note t1 = WriteBuffer_key_repeat[OF w ne k(1) k(3) b, THEN conjunct1, rule_format, OF m]
  note t2 = WriteBuffer_key_repeat[OF w ne k(2) k(4) b, THEN conjunct2, rule_format, OF nm]
  have p1: "\<exists>lk s'. last (queued ?s) = KEY_EVENT lk
      \<and> WriteBuffer plain_platform ?s [KEY_EVENT (key_down 65 2)] = Some (STATUS_SUCCESS, 1, False, s')
      \<and> queued s' = [KEY_EVENT (lk\<lparr>wRepeatCount := wRepeatCount lk + 2\<rparr>)]
      \<and> GetNumberOfReadyEvents s' = 1"
    using t1 unfolding q c r by auto
  have p2: "\<exists>Status n SetWaitEvent s'.
        WriteBuffer plain_platform ?s [KEY_EVENT (key_down 66 1)] = Some (Status, n, SetWaitEvent, s')
        \<and> queued s' = KEY_EVENT (key_down 65 1) # take n [KEY_EVENT (key_down 66 1)]
        \<and> GetNumberOfReadyEvents s' = 1 + n"
    using t2 unfolding q c by auto
  from p1 p2 show ?thesis by blast
qed

lemma length_PreprocessInput:
  "length (fst (PreprocessInput env mode fl xs)) \<le> length xs"
  by (induction env mode fl xs rule: PreprocessInput.induct)
     (auto split: prod.splits simp: le_SucI)

lemma snd_ansi_scan_le: "snd (ansi_scan env L q B n) \<le> n"
  by (induction env L q B n rule: ansi_scan.induct) (auto simp: le_SucI)

lemma ReadBuffer_state:
  "snd (snd (snd (snd (ReadBuffer env s L P S U))))
     = s\<lparr>Out := Out (snd (snd (snd (snd (ReadBuffer env s L P S U)))))\<rparr>"
  by (simp add: ReadBuffer_def Let_def)

lemma ReadBuffer_reset:
  "fst (snd (snd (snd (ReadBuffer env s L P S U))))
     = (Out (snd (snd (snd (snd (ReadBuffer env s L P S U))))) = In s)"
  by (simp add: ReadBuffer_def Let_def)

lemma ReadBuffer_Out_le_peek:
  assumes "wf s"
  shows "Out (snd (snd (snd (snd (ReadBuffer env s L True S U))))) \<le> InputBufferSize s"
  using assms by (simp add: ReadBuffer_def Let_def wf_def Last_def First_def)

lemma ReadBuffer_Out_le_stream:
  assumes "wf s" "S \<and> is_KEY_EVENT (InputBuffer s ! Out s)"
  shows "Out (snd (snd (snd (snd (ReadBuffer env s L P S U))))) \<le> InputBufferSize s"
  using assms by (auto simp: ReadBuffer_def Let_def wf_def Last_def First_def)

lemma ReadBuffer_Out_le_contig:
  assumes "wf s" "\<not> (S \<and> is_KEY_EVENT (InputBuffer s ! Out s))" "Out s < In s"
  shows "Out (snd (snd (snd (snd (ReadBuffer env s L P S U))))) \<le> InputBufferSize s"
  using assms by (auto simp: ReadBuffer_def Let_def wf_def Last_def First_def)

lemma ReadBuffer_Out_le_wrapped_unicode:
  assumes "wf s" "\<not> (S \<and> is_KEY_EVENT (InputBuffer s ! Out s))" "\<not> Out s < In s"
  shows "Out (snd (snd (snd (snd (ReadBuffer env s L False S True))))) \<le> InputBufferSize s"
  using assms by (auto simp: ReadBuffer_def Let_def wf_def Last_def First_def)

lemma ReadBuffer_Out_le_wrapped_ansi:
  assumes "wf s" "\<not> (S \<and> is_KEY_EVENT (InputBuffer s ! Out s))" "\<not> Out s < In s"
  shows "Out (snd (snd (snd (snd (ReadBuffer env s L False S False))))) \<le> InputBufferSize s"
proof -
  define TL0 where "TL0 = (if Last s - Out s > L then L else Last s - Out s)"
  define sc1 where "sc1 = ansi_scan env L (drop (Out s) (InputBuffer s)) 0 TL0"
  define Out1 where "Out1 = (if Out s + (TL0 - snd sc1) = Last s then First s else Out s + (TL0 - snd sc1))"
  define TL2a where "TL2a = (if In s - First s > L - fst sc1 then L - fst sc1 else In s - First s)"
  define sc2 where "sc2 = ansi_scan env (L - fst sc1) (drop (First s) (InputBuffer s)) 0 TL2a"
  have R: "ReadBuffer env s L False S False =
     (if fst sc1 \<ge> L then
        (STATUS_SUCCESS, take (TL0 - snd sc1) (drop (Out s) (InputBuffer s)), TL0 - snd sc1,
         Out1 = In s, s\<lparr>Out := Out1\<rparr>)
      else if L - fst sc1 = 0 then
        (STATUS_SUCCESS, take (TL0 - snd sc1) (drop (Out s) (InputBuffer s)), TL0 - snd sc1,
         Out1 = In s, s\<lparr>Out := Out1\<rparr>)
      else
        (STATUS_SUCCESS,
         take (TL0 - snd sc1) (drop (Out s) (InputBuffer s))
           @ take (TL2a - snd sc2) (drop (First s) (InputBuffer s)),
         TL0 - snd sc1 + (TL2a - snd sc2), First s + (TL2a - snd sc2) = In s,
         s\<lparr>Out := First s + (TL2a - snd sc2)\<rparr>))"
    unfolding ReadBuffer_def Let_def TL0_def sc1_def Out1_def TL2a_def sc2_def
    using assms(2,3) by (simp only: if_False if_True simp_thms)
  have t0: "TL0 \<le> Last s - Out s" by (simp add: TL0_def)
  have o1: "Out1 \<le> InputBufferSize s"
    using t0 assms(1) by (auto simp: Out1_def wf_def Last_def First_def)
  have t2: "TL2a \<le> In s" by (simp add: TL2a_def First_def)
  have o2: "First s + (TL2a - snd sc2) \<le> InputBufferSize s"
    using t2 assms(1) unfolding wf_def First_def by linarith
  show ?thesis unfolding R using o1 o2 by simp
qed

lemma ReadBuffer_Out_le:
  assumes "wf s"
  shows "Out (snd (snd (snd (snd (ReadBuffer env s L P S U))))) \<le> InputBufferSize s"
proof (cases P)
  case True
  then show ?thesis using ReadBuffer_Out_le_peek[OF assms] by simp
next
  case False
  consider (stream) "S \<and> is_KEY_EVENT (InputBuffer s ! Out s)"
    | (contig) "\<not> (S \<and> is_KEY_EVENT (InputBuffer s ! Out s))" "Out s < In s"
    | (wrapped) "\<not> (S \<and> is_KEY_EVENT (InputBuffer s ! Out s))" "\<not> Out s < In s"
    by blast
  then show ?thesis
  proof cases
    case stream
    then show ?thesis by (rule ReadBuffer_Out_le_stream[OF assms])
  next
    case contig
    then show ?thesis by (rule ReadBuffer_Out_le_contig[OF assms])
  next
    case wrapped
    show ?thesis
    proof (cases U)
      case True
      with ReadBuffer_Out_le_wrapped_unicode[OF assms wrapped] False show ?thesis by simp
    next
      case F: False
      with ReadBuffer_Out_le_wrapped_ansi[OF assms wrapped] False show ?thesis by simp
    qed
  qed
qed

text \<open>
  Every read leaves a well-formed buffer that differs from the old one in \<^verbatim>\<open>Out\<close>
  only, and asks for the wait event to be reset exactly when the cursors then meet.
\<close>

lemma ReadBuffer_result:
  assumes "wf s"
  shows "\<exists>Status recs n out'.
           ReadBuffer env s L P S U = (Status, recs, n, out' = In s, s\<lparr>Out := out'\<rparr>)
           \<and> out' \<le> InputBufferSize s"
proof -
  define R where "R = ReadBuffer env s L P S U"
  have 1: "snd (snd (snd (snd R))) = s\<lparr>Out := Out (snd (snd (snd (snd R))))\<rparr>"
    unfolding R_def by (rule ReadBuffer_state)
  have 2: "fst (snd (snd (snd R))) = (Out (snd (snd (snd (snd R)))) = In s)"
    unfolding R_def by (rule ReadBuffer_reset)
  have 3: "Out (snd (snd (snd (snd R)))) \<le> InputBufferSize s"
    unfolding R_def by (rule ReadBuffer_Out_le[OF assms])
  have "R = (fst R, fst (snd R), fst (snd (snd R)),
             Out (snd (snd (snd (snd R)))) = In s,
             s\<lparr>Out := Out (snd (snd (snd (snd R))))\<rparr>)"
    apply (rule prod_eqI, simp)
    apply (rule prod_eqI, simp)
    apply (rule prod_eqI, simp)
    apply (rule prod_eqI)
     apply (simp only: fst_conv snd_conv, rule 2)
    apply (simp only: fst_conv snd_conv, rule 1)
    done
  with 3 show ?thesis unfolding R_def by blast
qed

lemma wf_Flags [simp]: "wf (s\<lparr>Flags := f\<rparr>) = wf s"
  by (simp add: wf_def)

lemma count_Flags [simp]: "GetNumberOfReadyEvents (s\<lparr>Flags := f\<rparr>) = GetNumberOfReadyEvents s"
  by (simp add: GetNumberOfReadyEvents_def Last_def First_def)

lemma count_signal [simp]:
  "GetNumberOfReadyEvents (s\<lparr>InputWaitEvent := b\<rparr>) = GetNumberOfReadyEvents s"
  by (simp add: GetNumberOfReadyEvents_def Last_def First_def)

lemma flush_copy_props:
  "fst (flush_copy lim Tmp p buf) \<le> max p lim
   \<and> length (snd (flush_copy lim Tmp p buf)) = length buf"
  by (induction lim Tmp p buf rule: flush_copy.induct) auto

text \<open>
  Every write to a well-formed buffer returns, leaves a well-formed buffer with the
  wait event untouched and no fewer records, and asks for the wait event to be set
  exactly when the buffer was empty before; the buffer then holds a record.
\<close>

lemma WriteBuffer_any:
  assumes "wf s"
    and "sizeof_INPUT_RECORD *
           (InputBufferSize s + length B + INPUT_BUFFER_SIZE_INCREMENT env + 1) < 2 ^ 32"
  shows "\<exists>Status k sw s'.
           WriteBuffer env s B = Some (Status, k, sw, s') \<and> wf s'
           \<and> InputWaitEvent s' = InputWaitEvent s \<and> InputMode s' = InputMode s
           \<and> Flags s' = Flags s
           \<and> GetNumberOfReadyEvents s \<le> GetNumberOfReadyEvents s'
           \<and> (B \<noteq> [] \<longrightarrow> sw = (Out s = In s))
           \<and> (B \<noteq> [] \<and> Out s = In s \<longrightarrow> 0 < GetNumberOfReadyEvents s')
           \<and> InputBufferSize s \<le> InputBufferSize s'
           \<and> InputBufferSize s' \<le> InputBufferSize s + length B + INPUT_BUFFER_SIZE_INCREMENT env"
proof (cases "length B = 1 \<and> Out s \<noteq> In s \<and> coalesce env s (hd B) \<noteq> None")
  case True
  then obtain s1 where c: "coalesce env s (hd B) = Some s1" by auto
  then obtain x where x: "s1 = s\<lparr>InputBuffer := (InputBuffer s)[LastInputEvent s := x]\<rparr>"
    using coalesce_Some by blast
  have w: "WriteBuffer env s B = Some (STATUS_SUCCESS, 1, False, s1)"
    using True c by (simp add: WriteBuffer_def)
  have b: "B \<noteq> []" using True by auto
  show ?thesis
    using w True b wf_update_store[OF assms(1), of "LastInputEvent s" x]
    by (auto simp: x count_update_store)
next
  case False
  then have e: "WriteBuffer env s B = WriteLoop env s B (length B) 0 (length B) False"
    by (auto simp: WriteBuffer_def split: option.splits)
  obtain r where r: "WriteLoop env s B (length B) 0 (length B) False = Some r"
    "loop_post env s B (length B) 0 False r"
    using WriteLoop_total[OF assms(1) _ _ assms(2), of 0 B "length B" False] by auto
  obtain st n sw s' where t: "r = (st, n, sw, s')" by (cases r) auto
  let ?Size = "InputBufferSize s + length B + INPUT_BUFFER_SIZE_INCREMENT env"
  let ?k = "if length B \<le> free_slots s \<or> can_grow env ?Size then length B else free_slots s"
  have p: "wf s'" "queued s' = queued s @ take ?k B"
    "sw = (0 < length B \<and> Out s = In s)"
    "InputWaitEvent s' = InputWaitEvent s" "InputMode s' = InputMode s" "Flags s' = Flags s"
    "InputBufferSize s' = (if length B \<le> free_slots s \<or> \<not> can_grow env ?Size
                             then InputBufferSize s else ?Size)"
    using r(2) unfolding t loop_post_def Let_def by simp_all
  have c: "GetNumberOfReadyEvents s' = GetNumberOfReadyEvents s + min ?k (length B)"
    using queued_length[OF p(1)] queued_length[OF assms(1)] p(2) by (simp add: min.commute)
  have pos: "B \<noteq> [] \<and> Out s = In s \<longrightarrow> 0 < GetNumberOfReadyEvents s'"
  proof
    assume a: "B \<noteq> [] \<and> Out s = In s"
    then have "GetNumberOfReadyEvents s = 0" by (simp add: GetNumberOfReadyEvents_def)
    then have "free_slots s = InputBufferSize s" by (simp add: free_slots_def)
    then have "0 < ?k" using a assms(1) by (auto simp: wf_def)
    then show "0 < GetNumberOfReadyEvents s'" using c a by auto
  qed
  have cap: "InputBufferSize s \<le> InputBufferSize s'" "InputBufferSize s' \<le> ?Size"
    using p(7) by (auto split: if_splits)
  show ?thesis
    using e r(1) t p(1,3,4,5,6) c pos cap by auto
qed

lemma signal_ok_Flags [simp]: "signal_ok (s\<lparr>Flags := f\<rparr>) = signal_ok s"
  by (simp add: signal_ok_def)

lemma signal_nonempty: "wf s \<Longrightarrow> signal_ok s \<Longrightarrow> Out s \<noteq> In s \<Longrightarrow> InputWaitEvent s"
  using count_pos[of s] by (simp add: signal_ok_def)

lemma signal_empty: "signal_ok s \<Longrightarrow> Out s = In s \<Longrightarrow> \<not> InputWaitEvent s"
  by (simp add: signal_ok_def GetNumberOfReadyEvents_def)

lemma WriteInputBuffer_signal:
  assumes "wf s" and "signal_ok s"
    and "sizeof_INPUT_RECORD *
           (InputBufferSize s + length pInputRecord + INPUT_BUFFER_SIZE_INCREMENT env + 1) < 2 ^ 32"
  shows "\<exists>n s'. WriteInputBuffer env s pInputRecord = Some (n, s') \<and> wf s' \<and> signal_ok s'"
proof -
  obtain kept fl where pp: "PreprocessInput env (InputMode s) (Flags s) pInputRecord = (kept, fl)"
    by (cases "PreprocessInput env (InputMode s) (Flags s) pInputRecord") auto
  let ?s0 = "s\<lparr>Flags := fl\<rparr>"
  have le: "length kept \<le> length pInputRecord"
    using length_PreprocessInput[of env "InputMode s" "Flags s" pInputRecord] pp by simp
  show ?thesis
  proof (cases "kept = []")
    case True
    then show ?thesis using pp assms(1,2) by (simp add: WriteInputBuffer_def)
  next
    case False
    have w0: "wf ?s0" using assms(1) by simp
    have b0: "sizeof_INPUT_RECORD *
           (InputBufferSize ?s0 + length kept + INPUT_BUFFER_SIZE_INCREMENT env + 1) < 2 ^ 32"
      using assms(3) le by (simp add: sizeof_INPUT_RECORD_def)
    obtain st k sw s1 where w: "WriteBuffer env ?s0 kept = Some (st, k, sw, s1)" "wf s1"
      "InputWaitEvent s1 = InputWaitEvent ?s0"
      "GetNumberOfReadyEvents ?s0 \<le> GetNumberOfReadyEvents s1"
      "kept \<noteq> [] \<longrightarrow> sw = (Out ?s0 = In ?s0)"
      "kept \<noteq> [] \<and> Out ?s0 = In ?s0 \<longrightarrow> 0 < GetNumberOfReadyEvents s1"
      using WriteBuffer_any[OF w0 b0] by blast
    have r: "WriteInputBuffer env s pInputRecord
               = Some (k, if sw then s1\<lparr>InputWaitEvent := True\<rparr> else s1)"
      using pp False w(1) by (simp add: WriteInputBuffer_def)
    have ok: "signal_ok (if sw then s1\<lparr>InputWaitEvent := True\<rparr> else s1)"
    proof (cases "Out s = In s")
      case True
      then show ?thesis using w(5,6) False by (simp add: signal_ok_def)
    next
      case F: False
      have "InputWaitEvent s" by (rule signal_nonempty[OF assms(1,2) F])
      moreover have "0 < GetNumberOfReadyEvents s" by (rule count_pos[OF assms(1) F])
      ultimately show ?thesis using w(3,4,5) False F by (simp add: signal_ok_def)
    qed
    have "wf (if sw then s1\<lparr>InputWaitEvent := True\<rparr> else s1)" using w(2) by simp
    with r ok show ?thesis by blast
  qed
qed

lemma ReadInputBuffer_signal:
  assumes "wf s" and "signal_ok s" and "\<not> NT_SUCCESS WaitStatus"
  shows "\<exists>Status recs n ReadCount' s'.
           ReadInputBuffer env WaitStatus s pcLength fPeek fWaitForData fStreamRead ReadCount fUnicode
             = (Status, recs, n, ReadCount', s')
           \<and> wf s' \<and> signal_ok s'"
proof (cases "In s = Out s")
  case True
  then show ?thesis using assms by (auto simp: ReadInputBuffer_def)
next
  case False
  obtain st recs n out' where r:
    "ReadBuffer env s pcLength fPeek fStreamRead fUnicode
       = (st, recs, n, out' = In s, s\<lparr>Out := out'\<rparr>)" "out' \<le> InputBufferSize s"
    using ReadBuffer_result[OF assms(1), of env pcLength fPeek fStreamRead fUnicode] by blast
  let ?s' = "if out' = In s then s\<lparr>Out := out', InputWaitEvent := False\<rparr> else s\<lparr>Out := out'\<rparr>"
  have e: "ReadInputBuffer env WaitStatus s pcLength fPeek fWaitForData fStreamRead ReadCount fUnicode
             = (st, recs, n, ReadCount, ?s')"
    using False r(1) by (simp add: ReadInputBuffer_def)
  have w1: "wf (s\<lparr>Out := out'\<rparr>)" using assms(1) r(2) by (simp add: wf_def)
  have w: "wf ?s'" using w1 by (simp add: wf_def)
  have sig: "InputWaitEvent s"
    using signal_nonempty[OF assms(1,2)] False by simp
  have ok: "signal_ok ?s'"
  proof (cases "out' = In s")
    case True
    then show ?thesis by (simp add: signal_ok_def GetNumberOfReadyEvents_def)
  next
    case F: False
    have "0 < GetNumberOfReadyEvents (s\<lparr>Out := out'\<rparr>)"
      using count_pos[OF w1] F by simp
    then show ?thesis using F sig by (simp add: signal_ok_def)
  qed
  from e w ok show ?thesis by blast
qed

lemma FlushInputBuffer_signal:
  assumes "wf s"
  shows "wf (FlushInputBuffer s) \<and> signal_ok (FlushInputBuffer s)"
  using assms
  by (simp add: FlushInputBuffer_def wf_def signal_ok_def GetNumberOfReadyEvents_def)

lemma FlushAllButKeys_signal:
  assumes "wf s" and "signal_ok s"
  shows "\<exists>Status s'. FlushAllButKeys env s = (Status, s') \<and> wf s' \<and> signal_ok s'"
proof (cases "In s = Out s")
  case True
  then show ?thesis using assms by (simp add: FlushAllButKeys_def)
next
  case False
  have m: "DWordMult sizeof_INPUT_RECORD (InputBufferSize s + 1)
             = Some (sizeof_INPUT_RECORD * (InputBufferSize s + 1))"
    using assms(1) by (simp add: DWordMult_def wf_def)
  show ?thesis
  proof (cases "alloc_ok env (sizeof_INPUT_RECORD * (InputBufferSize s + 1))")
    case F: False
    then show ?thesis using False assms m by (simp add: FlushAllButKeys_def)
  next
    case True
    obtain st Tmp n d s1 where r: "ReadBuffer env s (InputBufferSize s) True False True = (st, Tmp, n, d, s1)"
      by (metis prod_cases5)
    have st: "st = STATUS_SUCCESS"
      using ReadBuffer_status[of env s "InputBufferSize s" True False True] r by simp
    obtain InPtr buf where fc:
      "flush_copy (InputBufferSize s - 1) (take n Tmp) 0 (InputBuffer s) = (InPtr, buf)"
      by (cases "flush_copy (InputBufferSize s - 1) (take n Tmp) 0 (InputBuffer s)") auto
    have fp: "InPtr \<le> InputBufferSize s - 1" "length buf = length (InputBuffer s)"
      using flush_copy_props[of "InputBufferSize s - 1" "take n Tmp" 0 "InputBuffer s"] fc
      by simp_all
    let ?s' = "s\<lparr>Out := 0, InputBuffer := buf, In := InPtr,
                 InputWaitEvent := (if InPtr = 0 then False else InputWaitEvent s)\<rparr>"
    have e: "FlushAllButKeys env s = (STATUS_SUCCESS, ?s')"
      using False m True r st fc by (simp add: FlushAllButKeys_def NT_SUCCESS_def)
    have w: "wf ?s'" using assms(1) fp by (simp add: wf_def)
    have sig: "InputWaitEvent s" using signal_nonempty[OF assms(1,2)] False by simp
    have ok: "signal_ok ?s'"
      using sig by (simp add: signal_ok_def GetNumberOfReadyEvents_def)
    from e w ok show ?thesis by blast
  qed
qed

text \<open>
  C6. The wait event is set exactly when the buffer holds a record, as an invariant of
  the public operations: from a well-formed buffer on which it holds,
  \<^verbatim>\<open>WriteInputBuffer\<close> returns and \<^verbatim>\<open>ReadInputBuffer\<close>, \<^verbatim>\<open>FlushInputBuffer\<close> and
  \<^verbatim>\<open>FlushAllButKeys\<close> each leave a well-formed buffer on which it holds again, for
  every argument and flag of the operation. \<^verbatim>\<open>WaitForMoreToRead\<close>, which is not part of
  the source, is taken as the specification describes it: it suspends the reader or
  fails, and does not return a success status (a wait that returns with success has let
  a writer change the buffer in between, outside this sequential model). The byte
  lengths of the requests are taken to fit the \<^verbatim>\<open>ULONG\<close> the source keeps them in.
\<close>

theorem wait_signal_invariant:
  assumes "wf s" and "signal_ok s"
    and "sizeof_INPUT_RECORD *
           (InputBufferSize s + length pInputRecord + INPUT_BUFFER_SIZE_INCREMENT env + 1) < 2 ^ 32"
    and "sizeof_INPUT_RECORD * pcLength < 2 ^ 32"
    and "\<not> NT_SUCCESS WaitStatus"
  shows "(\<exists>n s'. WriteInputBuffer env s pInputRecord = Some (n, s') \<and> wf s' \<and> signal_ok s')
         \<and> (\<exists>Status recs n ReadCount' s'.
               ReadInputBuffer env WaitStatus s pcLength fPeek fWaitForData fStreamRead
                   ReadCount fUnicode
                 = (Status, recs, n, ReadCount', s')
               \<and> wf s' \<and> signal_ok s')
         \<and> wf (FlushInputBuffer s) \<and> signal_ok (FlushInputBuffer s)
         \<and> (\<exists>Status s'. FlushAllButKeys env s = (Status, s') \<and> wf s' \<and> signal_ok s')"
  using WriteInputBuffer_signal[OF assms(1,2,3)]
    ReadInputBuffer_signal[OF assms(1,2,5), of env pcLength fPeek fWaitForData fStreamRead
      ReadCount fUnicode]
    FlushInputBuffer_signal[OF assms(1)] FlushAllButKeys_signal[OF assms(1,2), of env]
  by blast

theorem wait_signal_invariant_witness:
  "(\<exists>n s'. WriteInputBuffer plain_platform
              (buffer_of [KEY_EVENT (key_down 65 1), OTHER_EVENT 0, OTHER_EVENT 0] 1 0)
              [KEY_EVENT (key_down 66 1)] = Some (n, s') \<and> wf s' \<and> signal_ok s')
   \<and> (\<exists>Status recs n ReadCount' s'.
         ReadInputBuffer plain_platform CONSOLE_STATUS_WAIT
              (buffer_of [KEY_EVENT (key_down 65 1), OTHER_EVENT 0, OTHER_EVENT 0] 1 0)
              1 False True False 0 True
           = (Status, recs, n, ReadCount', s')
         \<and> wf s' \<and> signal_ok s')
   \<and> wf (FlushInputBuffer (buffer_of [KEY_EVENT (key_down 65 1), OTHER_EVENT 0, OTHER_EVENT 0] 1 0))
   \<and> signal_ok (FlushInputBuffer (buffer_of [KEY_EVENT (key_down 65 1), OTHER_EVENT 0, OTHER_EVENT 0] 1 0))
   \<and> (\<exists>Status s'. FlushAllButKeys plain_platform
              (buffer_of [KEY_EVENT (key_down 65 1), OTHER_EVENT 0, OTHER_EVENT 0] 1 0)
           = (Status, s') \<and> wf s' \<and> signal_ok s')"
proof -
  let ?s = "buffer_of [KEY_EVENT (key_down 65 1), OTHER_EVENT 0, OTHER_EVENT 0] 1 0"
  have w: "wf ?s" by (simp add: wf_buffer_of)
  have sg: "signal_ok ?s"
    by (simp add: signal_ok_def buffer_of_def GetNumberOfReadyEvents_def)
  have b: "sizeof_INPUT_RECORD *
           (InputBufferSize ?s + length [KEY_EVENT (key_down 66 1)]
              + INPUT_BUFFER_SIZE_INCREMENT plain_platform + 1) < 2 ^ 32"
    by (simp add: sizeof_INPUT_RECORD_def buffer_of_def plain_platform_def)
  have n1: "sizeof_INPUT_RECORD * 1 < 2 ^ 32" by (simp add: sizeof_INPUT_RECORD_def)
  have ws: "\<not> NT_SUCCESS CONSOLE_STATUS_WAIT" by (simp add: NT_SUCCESS_def)
  show ?thesis
    by (rule wait_signal_invariant[OF w sg b n1 ws])
qed

lemma slot_count: "wf s \<Longrightarrow> slot s (GetNumberOfReadyEvents s) = In s"
  by (auto simp: slot_def GetNumberOfReadyEvents_def wf_def Last_def First_def)

lemma empty_cursors: "wf s \<Longrightarrow> GetNumberOfReadyEvents s = 0 \<Longrightarrow> Out s = In s"
  using count_pos[of s] by auto

text \<open>
  C9. When preprocessing leaves at least one record and the read-out of the records
  already queued succeeds (the temporary allocation goes through; the read itself always
  does), \<^verbatim>\<open>PrependInputBuffer\<close> returns \<^verbatim>\<open>STATUS_SUCCESS\<close> and reports the preprocessed
  count as the number of records written, whatever the two \<^verbatim>\<open>WriteBuffer\<close> calls
  return: their statuses and their counts are not looked at. The byte lengths involved
  are taken to fit the \<^verbatim>\<open>ULONG\<close> the source keeps them in.
\<close>

theorem PrependInputBuffer_reports_success:
  assumes "wf s"
    and "PreprocessInput env (InputMode s) (Flags s) pInputRecord = (kept, fl)"
    and "kept \<noteq> []"
    and "GetNumberOfReadyEvents s \<noteq> 0 \<longrightarrow>
           alloc_ok env (GetNumberOfReadyEvents s * sizeof_INPUT_RECORD)"
    and "sizeof_INPUT_RECORD *
           (2 * InputBufferSize s + length pInputRecord
              + 2 * INPUT_BUFFER_SIZE_INCREMENT env + 1) < 2 ^ 32"
  shows "\<exists>s'. PrependInputBuffer env s pInputRecord = Some (STATUS_SUCCESS, length kept, s')"
proof -
  let ?s0 = "s\<lparr>Flags := fl\<rparr>"
  let ?c = "GetNumberOfReadyEvents s"
  have le: "length kept \<le> length pInputRecord"
    using length_PreprocessInput[of env "InputMode s" "Flags s" pInputRecord] assms(2) by simp
  have w0: "wf ?s0" using assms(1) by simp
  have ccap: "?c \<le> InputBufferSize s" by (rule count_le_cap[OF assms(1)])
  have mult: "DWordMult ?c sizeof_INPUT_RECORD \<noteq> None"
    using ccap assms(1) by (auto simp: DWordMult_def wf_def sizeof_INPUT_RECORD_def)
  obtain pExisting EventsRead s1 where rd:
    "(if ?c \<noteq> 0 then ReadBuffer env ?s0 ?c False False True
      else (STATUS_SUCCESS, [], 0, False, ?s0)) = (STATUS_SUCCESS, pExisting, EventsRead, ?c \<noteq> 0, s1)"
    "wf s1" "InputBufferSize s1 = InputBufferSize s" "EventsRead \<le> InputBufferSize s"
  proof (cases "?c = 0")
    case True
    show ?thesis using True w0 by (intro that[of "[]" 0 ?s0]) simp_all
  next
    case False
    then have ne: "Out ?s0 \<noteq> In ?s0" by (auto simp: GetNumberOfReadyEvents_def)
    have sl: "slot ?s0 ?c = In s" using slot_count[OF w0] by simp
    have r: "ReadBuffer env ?s0 ?c False False True
               = (STATUS_SUCCESS, take ?c (queued ?s0), ?c, True, ?s0\<lparr>Out := In s\<rparr>)"
      using ReadBuffer_unicode[OF w0 ne, of env ?c False] sl by simp
    have w1: "wf (?s0\<lparr>Out := In s\<rparr>)" using assms(1) by (simp add: wf_def)
    show ?thesis using False r w1 ccap
      by (intro that[of "take ?c (queued ?s0)" ?c "?s0\<lparr>Out := In s\<rparr>"]) simp_all
  qed
  have b1: "sizeof_INPUT_RECORD *
           (InputBufferSize s1 + length kept + INPUT_BUFFER_SIZE_INCREMENT env + 1) < 2 ^ 32"
    using assms(5) le rd(3) by (simp add: sizeof_INPUT_RECORD_def)
  obtain st1 k1 sw s2 where w1: "WriteBuffer env s1 kept = Some (st1, k1, sw, s2)" "wf s2"
    "InputBufferSize s2 \<le> InputBufferSize s1 + length kept + INPUT_BUFFER_SIZE_INCREMENT env"
    using WriteBuffer_any[OF rd(2) b1] by blast
  have b2: "sizeof_INPUT_RECORD *
           (InputBufferSize s2 + length (take EventsRead pExisting)
              + INPUT_BUFFER_SIZE_INCREMENT env + 1) < 2 ^ 32"
  proof -
    have "length (take EventsRead pExisting) \<le> InputBufferSize s" using rd(4) by simp
    then have "InputBufferSize s2 + length (take EventsRead pExisting)
                 + INPUT_BUFFER_SIZE_INCREMENT env + 1
               \<le> 2 * InputBufferSize s + length pInputRecord
                    + 2 * INPUT_BUFFER_SIZE_INCREMENT env + 1"
      using w1(3) rd(3) le by linarith
    then show ?thesis using assms(5) by (simp add: sizeof_INPUT_RECORD_def)
  qed
  obtain st2 k2 sw2 s3 where w2:
    "WriteBuffer env s2 (take EventsRead pExisting) = Some (st2, k2, sw2, s3)"
    using WriteBuffer_any[OF w1(2) b2] by blast
  have "PrependInputBuffer env s pInputRecord
          = Some (STATUS_SUCCESS, length kept,
                  if sw then (if ?c \<noteq> 0 then s3 else s2)\<lparr>InputWaitEvent := True\<rparr>
                  else (if ?c \<noteq> 0 then s3 else s2))"
    using assms(2,3,4) mult rd(1) w1(1) w2
    by (auto simp: PrependInputBuffer_def NT_SUCCESS_def)
  then show ?thesis by blast
qed

theorem PrependInputBuffer_reports_success_witness:
  "(\<exists>s'. PrependInputBuffer small_heap_platform
            (buffer_of [KEY_EVENT (key_down 65 1), KEY_EVENT (key_down 66 1), OTHER_EVENT 0] 2 0)
            [KEY_EVENT (key_down 67 1)] = Some (STATUS_SUCCESS, 1, s'))
   \<and> PrependInputBuffer small_heap_platform
         (buffer_of [KEY_EVENT (key_down 65 1), KEY_EVENT (key_down 66 1), OTHER_EVENT 0] 2 0)
         [KEY_EVENT (key_down 67 1)]
       = Some (STATUS_SUCCESS, 1,
               buffer_of [KEY_EVENT (key_down 65 1), KEY_EVENT (key_down 66 1),
                          KEY_EVENT (key_down 67 1)] 1 2)
   \<and> WriteBuffer small_heap_platform
         (buffer_of [KEY_EVENT (key_down 65 1), KEY_EVENT (key_down 66 1),
                          KEY_EVENT (key_down 67 1)] 0 2)
         [KEY_EVENT (key_down 65 1), KEY_EVENT (key_down 66 1)]
       = Some (STATUS_NO_MEMORY, 1, False,
               buffer_of [KEY_EVENT (key_down 65 1), KEY_EVENT (key_down 66 1),
                          KEY_EVENT (key_down 67 1)] 1 2)
   \<and> queued (buffer_of [KEY_EVENT (key_down 65 1), KEY_EVENT (key_down 66 1),
                          KEY_EVENT (key_down 67 1)] 1 2)
       = [KEY_EVENT (key_down 67 1), KEY_EVENT (key_down 65 1)]"
proof -
  let ?s = "buffer_of [KEY_EVENT (key_down 65 1), KEY_EVENT (key_down 66 1), OTHER_EVENT 0] 2 0"
  have w: "wf ?s" by (simp add: wf_buffer_of)
  have pp: "PreprocessInput small_heap_platform (InputMode ?s) (Flags ?s) [KEY_EVENT (key_down 67 1)]
              = ([KEY_EVENT (key_down 67 1)], 0)"
    by (simp add: buffer_of_def small_heap_platform_def plain_platform_def key_down_def
        ENABLE_LINE_INPUT_def)
  have ne: "[KEY_EVENT (key_down 67 1)] \<noteq> []" by simp
  have al: "GetNumberOfReadyEvents ?s \<noteq> 0 \<longrightarrow>
           alloc_ok small_heap_platform (GetNumberOfReadyEvents ?s * sizeof_INPUT_RECORD)"
    by (simp add: GetNumberOfReadyEvents_def buffer_of_def small_heap_platform_def
        sizeof_INPUT_RECORD_def)
  have b: "sizeof_INPUT_RECORD *
           (2 * InputBufferSize ?s + length [KEY_EVENT (key_down 67 1)]
              + 2 * INPUT_BUFFER_SIZE_INCREMENT small_heap_platform + 1) < 2 ^ 32"
    by (simp add: sizeof_INPUT_RECORD_def buffer_of_def small_heap_platform_def plain_platform_def)
  have p1: "\<exists>s'. PrependInputBuffer small_heap_platform ?s [KEY_EVENT (key_down 67 1)]
                  = Some (STATUS_SUCCESS, 1, s')"
    using PrependInputBuffer_reports_success[OF w pp ne al b] by simp
  have p2: "PrependInputBuffer small_heap_platform ?s [KEY_EVENT (key_down 67 1)]
       = Some (STATUS_SUCCESS, 1,
               buffer_of [KEY_EVENT (key_down 65 1), KEY_EVENT (key_down 66 1),
                          KEY_EVENT (key_down 67 1)] 1 2)"
    by (simp add: PrependInputBuffer_def WriteBuffer_def WriteLoop.simps OutPath_def copy_in_def
      ReadBuffer_def buffer_of_def Last_def First_def key_down_def GetNumberOfReadyEvents_def
      DWordMult_def sizeof_INPUT_RECORD_def small_heap_platform_def plain_platform_def
      SetInputBufferSize_def SizeTMult_def ULONG_def NT_SUCCESS_def ENABLE_LINE_INPUT_def
      coalesce_def LastInputEvent_def)
  have p3: "WriteBuffer small_heap_platform
         (buffer_of [KEY_EVENT (key_down 65 1), KEY_EVENT (key_down 66 1),
                          KEY_EVENT (key_down 67 1)] 0 2)
         [KEY_EVENT (key_down 65 1), KEY_EVENT (key_down 66 1)]
       = Some (STATUS_NO_MEMORY, 1, False,
               buffer_of [KEY_EVENT (key_down 65 1), KEY_EVENT (key_down 66 1),
                          KEY_EVENT (key_down 67 1)] 1 2)"
    by (simp add: WriteBuffer_def WriteLoop.simps OutPath_def copy_in_def
      buffer_of_def Last_def First_def key_down_def
      sizeof_INPUT_RECORD_def small_heap_platform_def plain_platform_def
      SetInputBufferSize_def SizeTMult_def ULONG_def NT_SUCCESS_def
      coalesce_def LastInputEvent_def)
  have p4: "queued (buffer_of [KEY_EVENT (key_down 65 1), KEY_EVENT (key_down 66 1),
                          KEY_EVENT (key_down 67 1)] 1 2)
       = [KEY_EVENT (key_down 67 1), KEY_EVENT (key_down 65 1)]"
    by (simp add: queued_def buffer_of_def)
  from p1 p2 p3 p4 show ?thesis by blast
qed

end
